theory Spec2Isabelle
  imports Main
begin

section \<open>The host environment\<close>

text \<open>
  The persistence layer (dataPersistence.js) is written against three capabilities of
  the browser: JSON values with \<^verbatim>\<open>JSON.parse\<close>/\<^verbatim>\<open>JSON.stringify\<close>,
  the synchronous key-value store \<^verbatim>\<open>localStorage\<close>, and the timer queue
  (\<^verbatim>\<open>setTimeout\<close>/\<^verbatim>\<open>clearTimeout\<close>). They are modelled first.
\<close>

subsection \<open>Exceptions and JSON values\<close>

text \<open>The exceptions that the code paths of this file can meet.\<close>

datatype exn = SyntaxError | TypeError | QuotaExceededError

text \<open>
  A JSON value. An object is a map from property names to values, so that the spread
  \<^verbatim>\<open>{...a, ...b}\<close> is map override; the order of an object's keys is not
  modelled. Numbers are opaque to the managers and kept as integers (the only number
  the code creates is \<^verbatim>\<open>Date.now()\<close>). A JavaScript value that may be
  \<^verbatim>\<open>undefined\<close> is a \<open>json option\<close>, with \<open>None\<close> for
  \<^verbatim>\<open>undefined\<close>.
\<close>

datatype json =
    JNull
  | JBool bool
  | JNum int
  | JStr string
  | JArr "json list"
  | JObj "string \<Rightarrow> json option"

text \<open>Truthiness of a value, as \<^verbatim>\<open>if (v)\<close>, \<^verbatim>\<open>v && e\<close> and \<^verbatim>\<open>v || e\<close> test it.\<close>

fun truthy :: "json \<Rightarrow> bool" where
  "truthy JNull = False"
| "truthy (JBool b) = b"
| "truthy (JNum n) = (n \<noteq> 0)"
| "truthy (JStr s) = (s \<noteq> [])"
| "truthy (JArr xs) = True"
| "truthy (JObj m) = True"

text \<open>
  Strict equality \<^verbatim>\<open>a === b\<close> of two values of which one was decoded from the
  store and the other was passed in by the caller: primitives compare by value, objects
  and arrays compare by reference and are therefore never equal here.
\<close>

fun strict_eq :: "json option \<Rightarrow> json option \<Rightarrow> bool" where
  "strict_eq None None = True"
| "strict_eq (Some JNull) (Some JNull) = True"
| "strict_eq (Some (JBool a)) (Some (JBool b)) = (a = b)"
| "strict_eq (Some (JNum a)) (Some (JNum b)) = (a = b)"
| "strict_eq (Some (JStr a)) (Some (JStr b)) = (a = b)"
| "strict_eq _ _ = False"

text \<open>The decimal numeral of an array index, as a property name.\<close>

fun show_nat :: "nat \<Rightarrow> string" where
  "show_nat n =
     (if n < 10 then [''0123456789'' ! n]
      else show_nat (n div 10) @ [''0123456789'' ! (n mod 10)])"

declare show_nat.simps [simp del]

definition index_props :: "json list \<Rightarrow> (string \<Rightarrow> json option)" where
  "index_props xs = map_of (zip (map show_nat [0..<length xs]) xs)"

text \<open>
  The own enumerable properties of a value, which is what a spread \<^verbatim>\<open>{...v}\<close>
  copies: the fields of an object, the indexed elements of an array, the indexed
  characters of a string, and nothing for \<^verbatim>\<open>null\<close>, \<^verbatim>\<open>undefined\<close>,
  booleans and numbers.
\<close>

fun own_props :: "json \<Rightarrow> (string \<Rightarrow> json option)" where
  "own_props (JObj m) = m"
| "own_props (JArr xs) = index_props xs"
| "own_props (JStr cs) = index_props (map (\<lambda>c. JStr [c]) cs)"
| "own_props _ = Map.empty"

fun spread_props :: "json option \<Rightarrow> (string \<Rightarrow> json option)" where
  "spread_props None = Map.empty"
| "spread_props (Some v) = own_props v"

text \<open>
  Reading a property \<^verbatim>\<open>v.k\<close>. On \<^verbatim>\<open>null\<close> it raises a TypeError; on every
  other value it yields the own property or \<^verbatim>\<open>undefined\<close>. The code only
  reads \<^verbatim>\<open>username\<close>, \<^verbatim>\<open>password\<close> and \<^verbatim>\<open>stats\<close>, none of
  which is inherited from a prototype.
\<close>

fun get_prop :: "json \<Rightarrow> string \<Rightarrow> exn + json option" where
  "get_prop JNull k = Inl TypeError"
| "get_prop v k = Inr (own_props v k)"

text \<open>
  Calling an array method (\<^verbatim>\<open>findIndex\<close>, \<^verbatim>\<open>find\<close>, \<^verbatim>\<open>unshift\<close>)
  on a decoded value: a TypeError unless the value is an array.
\<close>

fun as_array :: "json \<Rightarrow> exn + json list" where
  "as_array (JArr xs) = Inr xs"
| "as_array _ = Inl TypeError"

text \<open>
  \<^verbatim>\<open>Array.prototype.findIndex\<close> and \<^verbatim>\<open>Array.prototype.find\<close> with a
  callback that may raise. \<open>None\<close> stands for the results \<^verbatim>\<open>-1\<close> and
  \<^verbatim>\<open>undefined\<close>.
\<close>

fun findIndex :: "('a \<Rightarrow> exn + bool) \<Rightarrow> 'a list \<Rightarrow> exn + nat option" where
  "findIndex p [] = Inr None"
| "findIndex p (x # xs) =
     (case p x of
        Inl e \<Rightarrow> Inl e
      | Inr True \<Rightarrow> Inr (Some 0)
      | Inr False \<Rightarrow>
          (case findIndex p xs of
             Inl e \<Rightarrow> Inl e
           | Inr None \<Rightarrow> Inr None
           | Inr (Some i) \<Rightarrow> Inr (Some (Suc i))))"

fun find_first :: "('a \<Rightarrow> exn + bool) \<Rightarrow> 'a list \<Rightarrow> exn + 'a option" where
  "find_first p [] = Inr None"
| "find_first p (x # xs) =
     (case p x of
        Inl e \<Rightarrow> Inl e
      | Inr True \<Rightarrow> Inr (Some x)
      | Inr False \<Rightarrow> find_first p xs)"

subsection \<open>Stored texts and the JSON codec\<close>

text \<open>
  localStorage holds strings. The managers only ever hand a stored string to
  \<^verbatim>\<open>JSON.parse\<close> or test it for truthiness, and only ever store the result of
  \<^verbatim>\<open>JSON.stringify\<close>, so a stored string is represented by what
  \<^verbatim>\<open>JSON.parse\<close> makes of it: \<open>Text v\<close> is a well-formed JSON text that
  decodes to \<open>v\<close>, and \<open>Malformed s\<close> is the string \<open>s\<close>, which
  \<^verbatim>\<open>JSON.parse\<close> rejects with a SyntaxError.
\<close>

datatype payload = Text json | Malformed string

fun JSON_parse :: "payload \<Rightarrow> exn + json" where
  "JSON_parse (Text v) = Inr v"
| "JSON_parse (Malformed s) = Inl SyntaxError"

definition JSON_stringify :: "json \<Rightarrow> payload" where
  "JSON_stringify v = Text v"

text \<open>A string is truthy unless it is empty; a JSON text is never empty.\<close>

fun truthy_text :: "payload \<Rightarrow> bool" where
  "truthy_text (Text v) = True"
| "truthy_text (Malformed s) = (s \<noteq> [])"

subsection \<open>localStorage\<close>

text \<open>
  The store: its items, and its capacity as the predicate \<open>quota\<close> on the contents
  the store would have after a write. \<^verbatim>\<open>setItem\<close> raises QuotaExceededError when
  the new contents do not fit; \<^verbatim>\<open>getItem\<close> returns \<^verbatim>\<open>null\<close> (\<open>None\<close>) for
  an absent key; \<^verbatim>\<open>removeItem\<close> never raises.
\<close>

record storage =
  items :: "string \<Rightarrow> payload option"
  quota :: "(string \<Rightarrow> payload option) \<Rightarrow> bool"

definition getItem :: "storage \<Rightarrow> string \<Rightarrow> payload option" where
  "getItem s k = items s k"

definition setItem :: "storage \<Rightarrow> string \<Rightarrow> payload \<Rightarrow> exn + storage" where
  "setItem s k v =
     (if quota s ((items s)(k \<mapsto> v)) then Inr (s\<lparr>items := (items s)(k \<mapsto> v)\<rparr>)
      else Inl QuotaExceededError)"

definition removeItem :: "storage \<Rightarrow> string \<Rightarrow> storage" where
  "removeItem s k = s\<lparr>items := (items s)(k := None)\<rparr>"

section \<open>dataPersistence.js\<close>

subsection \<open>STORAGE_KEYS\<close>

definition GAME_STATE :: string where "GAME_STATE = ''tab_game_state''"
definition USER_DATA :: string where "USER_DATA = ''tab_user_data''"
definition GAME_HISTORY :: string where "GAME_HISTORY = ''tab_game_history''"
definition SETTINGS :: string where "SETTINGS = ''tab_settings''"

subsection \<open>UserManager\<close>

definition getAllUsers :: "storage \<Rightarrow> json" where
  "getAllUsers s =
     (case getItem s USER_DATA of
        None \<Rightarrow> JArr []
      | Some data \<Rightarrow>
          if truthy_text data
          then (case JSON_parse data of Inl e \<Rightarrow> JArr [] | Inr v \<Rightarrow> v)
          else JArr [])"

text \<open>The callback \<^verbatim>\<open>u => u.username === userData.username\<close> of saveUser.\<close>

definition same_username :: "json \<Rightarrow> json \<Rightarrow> exn + bool" where
  "same_username userData u =
     (case get_prop u ''username'' of
        Inl e \<Rightarrow> Inl e
      | Inr a \<Rightarrow>
          (case get_prop userData ''username'' of
             Inl e \<Rightarrow> Inl e
           | Inr b \<Rightarrow> Inr (strict_eq a b)))"

text \<open>
  Lines 23 to 30 of saveUser: the user list read from the store, with \<open>userData\<close>
  merged into the entry of the same username or pushed at the end.
\<close>

definition saveUser_users :: "json \<Rightarrow> storage \<Rightarrow> exn + json list" where
  "saveUser_users userData s =
     (case as_array (getAllUsers s) of
        Inl e \<Rightarrow> Inl e
      | Inr users \<Rightarrow>
          (case findIndex (same_username userData) users of
             Inl e \<Rightarrow> Inl e
           | Inr (Some existingIndex) \<Rightarrow>
               Inr (users[existingIndex :=
                      JObj (own_props (users ! existingIndex) ++ own_props userData)])
           | Inr None \<Rightarrow> Inr (users @ [userData])))"

text \<open>The body of the try block of saveUser, and saveUser with its catch.\<close>

definition saveUser_try :: "json \<Rightarrow> storage \<Rightarrow> exn + storage" where
  "saveUser_try userData s =
     (case saveUser_users userData s of
        Inl e \<Rightarrow> Inl e
      | Inr users \<Rightarrow> setItem s USER_DATA (JSON_stringify (JArr users)))"

definition saveUser :: "json \<Rightarrow> storage \<Rightarrow> bool \<times> storage" where
  "saveUser userData s =
     (case saveUser_try userData s of
        Inl e \<Rightarrow> (False, s)
      | Inr s' \<Rightarrow> (True, s'))"

text \<open>
  getUser has no try block: a TypeError of \<^verbatim>\<open>users.find\<close> or of its callback
  reaches the caller. The result \<^verbatim>\<open>found || null\<close> is \<open>JNull\<close> when nothing was
  found.
\<close>

definition has_username :: "string \<Rightarrow> json \<Rightarrow> exn + bool" where
  "has_username username u =
     (case get_prop u ''username'' of
        Inl e \<Rightarrow> Inl e
      | Inr a \<Rightarrow> Inr (strict_eq a (Some (JStr username))))"

definition getUser :: "string \<Rightarrow> storage \<Rightarrow> exn + json" where
  "getUser username s =
     (case as_array (getAllUsers s) of
        Inl e \<Rightarrow> Inl e
      | Inr users \<Rightarrow>
          (case find_first (has_username username) users of
             Inl e \<Rightarrow> Inl e
           | Inr None \<Rightarrow> Inr JNull
           | Inr (Some u) \<Rightarrow> Inr (if truthy u then u else JNull)))"

definition authenticate :: "string \<Rightarrow> string \<Rightarrow> storage \<Rightarrow> exn + json" where
  "authenticate username password s =
     (case getUser username s of
        Inl e \<Rightarrow> Inl e
      | Inr user \<Rightarrow>
          if truthy user
          then (case get_prop user ''password'' of
                  Inl e \<Rightarrow> Inl e
                | Inr p \<Rightarrow> Inr (if strict_eq p (Some (JStr password)) then user else JNull))
          else Inr JNull)"

text \<open>
  The assignment \<^verbatim>\<open>user.stats = v\<close>: it sets the field of an object. On an
  array it adds a property that \<^verbatim>\<open>JSON.stringify\<close> leaves out, and on a
  primitive it is ignored (the script is not in strict mode), so both stay as they are.
\<close>

fun assign_stats :: "json \<Rightarrow> json \<Rightarrow> json" where
  "assign_stats (JObj m) v = JObj (m(''stats'' \<mapsto> v))"
| "assign_stats u v = u"

text \<open>updateStats has no try block either; the result of saveUser is dropped.\<close>

definition updateStats :: "string \<Rightarrow> json \<Rightarrow> storage \<Rightarrow> exn + storage" where
  "updateStats username stats s =
     (case getUser username s of
        Inl e \<Rightarrow> Inl e
      | Inr user \<Rightarrow>
          if truthy user
          then (case get_prop user ''stats'' of
                  Inl e \<Rightarrow> Inl e
                | Inr old \<Rightarrow>
                    Inr (snd (saveUser
                      (assign_stats user (JObj (spread_props old ++ own_props stats))) s)))
          else Inr s)"

subsection \<open>The clock\<close>

text \<open>
  A reading of the clock (\<^verbatim>\<open>new Date()\<close>, \<^verbatim>\<open>Date.now()\<close>) is a number of
  milliseconds since the epoch and an input of the operation that reads it.
  \<^verbatim>\<open>toISOString\<close> renders it as \<^verbatim>\<open>YYYY-MM-DDTHH:mm:ss.sssZ\<close> in UTC
  (with a sign and six digits for a year after 9999).
\<close>

definition pad :: "nat \<Rightarrow> nat \<Rightarrow> string" where
  "pad w n = replicate (w - length (show_nat n)) CHR ''0'' @ show_nat n"

definition civil_from_days :: "nat \<Rightarrow> nat \<times> nat \<times> nat" where
  "civil_from_days days =
     (let z = days + 719468;
          era = z div 146097;
          doe = z mod 146097;
          yoe = (doe - doe div 1460 + doe div 36524 - doe div 146096) div 365;
          doy = doe - (365 * yoe + yoe div 4 - yoe div 100);
          mp = (5 * doy + 2) div 153;
          d = doy - (153 * mp + 2) div 5 + 1;
          m = (if mp < 10 then mp + 3 else mp - 9);
          y = yoe + era * 400 + (if m \<le> 2 then 1 else 0)
      in (y, m, d))"

definition toISOString :: "nat \<Rightarrow> string" where
  "toISOString ms =
     (case civil_from_days (ms div 86400000) of
        (y, m, d) \<Rightarrow>
          (if y \<le> 9999 then pad 4 y else CHR ''+'' # pad 6 y) @ ''-'' @ pad 2 m @ ''-'' @ pad 2 d
          @ ''T'' @ pad 2 (ms div 3600000 mod 24) @ '':'' @ pad 2 (ms div 60000 mod 60)
          @ '':'' @ pad 2 (ms div 1000 mod 60) @ ''.'' @ pad 3 (ms mod 1000) @ ''Z'')"

subsection \<open>GameStateManager\<close>

text \<open>
  saveGameState, with the reading \<open>date\<close> of \<^verbatim>\<open>new Date()\<close>: the try block,
  and the function with its catch.
\<close>

definition saveGameState_try :: "nat \<Rightarrow> json \<Rightarrow> storage \<Rightarrow> exn + storage" where
  "saveGameState_try date gameState s =
     setItem s GAME_STATE
       (JSON_stringify
          (JObj ((own_props gameState)
                   (''timestamp'' \<mapsto> JStr (toISOString date), ''version'' \<mapsto> JStr ''1.0''))))"

definition saveGameState :: "nat \<Rightarrow> json \<Rightarrow> storage \<Rightarrow> bool \<times> storage" where
  "saveGameState date gameState s =
     (case saveGameState_try date gameState s of
        Inl e \<Rightarrow> (False, s)
      | Inr s' \<Rightarrow> (True, s'))"

definition loadGameState :: "storage \<Rightarrow> json" where
  "loadGameState s =
     (case getItem s GAME_STATE of
        None \<Rightarrow> JNull
      | Some data \<Rightarrow>
          if truthy_text data
          then (case JSON_parse data of Inl e \<Rightarrow> JNull | Inr state \<Rightarrow> state)
          else JNull)"

definition hasSavedGame :: "storage \<Rightarrow> bool" where
  "hasSavedGame s = (getItem s GAME_STATE \<noteq> None)"

definition clearGameState :: "storage \<Rightarrow> storage" where
  "clearGameState s = removeItem s GAME_STATE"

subsection \<open>GameHistoryManager\<close>

definition getHistory :: "storage \<Rightarrow> json" where
  "getHistory s =
     (case getItem s GAME_HISTORY of
        None \<Rightarrow> JArr []
      | Some data \<Rightarrow>
          if truthy_text data
          then (case JSON_parse data of Inl e \<Rightarrow> JArr [] | Inr v \<Rightarrow> v)
          else JArr [])"

text \<open>
  The record that addGameToHistory builds from the readings \<open>date\<close> of
  \<^verbatim>\<open>new Date()\<close> and \<open>millis\<close> of \<^verbatim>\<open>Date.now()\<close>.
\<close>

definition gameRecord :: "nat \<Rightarrow> nat \<Rightarrow> json \<Rightarrow> json" where
  "gameRecord date millis gameData =
     JObj ((own_props gameData)
             (''completedAt'' \<mapsto> JStr (toISOString date), ''id'' \<mapsto> JNum (int millis)))"

definition addGameToHistory_try :: "nat \<Rightarrow> nat \<Rightarrow> json \<Rightarrow> storage \<Rightarrow> exn + storage" where
  "addGameToHistory_try date millis gameData s =
     (case as_array (getHistory s) of
        Inl e \<Rightarrow> Inl e
      | Inr history \<Rightarrow>
          (let history1 = gameRecord date millis gameData # history;
               history2 = (if length history1 > 50 then take 50 history1 else history1)
           in setItem s GAME_HISTORY (JSON_stringify (JArr history2))))"

definition addGameToHistory :: "nat \<Rightarrow> nat \<Rightarrow> json \<Rightarrow> storage \<Rightarrow> storage" where
  "addGameToHistory date millis gameData s =
     (case addGameToHistory_try date millis gameData s of
        Inl e \<Rightarrow> s
      | Inr s' \<Rightarrow> s')"

definition clearHistory :: "storage \<Rightarrow> storage" where
  "clearHistory s = removeItem s GAME_HISTORY"

subsection \<open>SettingsManager\<close>

definition saveSettings :: "json \<Rightarrow> storage \<Rightarrow> storage" where
  "saveSettings settings s =
     (case setItem s SETTINGS (JSON_stringify settings) of
        Inl e \<Rightarrow> s
      | Inr s' \<Rightarrow> s')"

definition defaults :: "string \<Rightarrow> json option" where
  "defaults =
     [''soundEnabled'' \<mapsto> JBool True, ''autoSave'' \<mapsto> JBool True,
      ''difficulty'' \<mapsto> JStr ''medium'']"

definition loadSettings :: "storage \<Rightarrow> json" where
  "loadSettings s =
     (case getItem s SETTINGS of
        None \<Rightarrow> JObj defaults
      | Some data \<Rightarrow>
          if truthy_text data
          then (case JSON_parse data of
                  Inl e \<Rightarrow> JObj defaults
                | Inr v \<Rightarrow> JObj (defaults ++ own_props v))
          else JObj defaults)"

subsection \<open>The timer queue and autoSave\<close>

text \<open>
  The page, as far as autoSave can tell: the store, the clock \<open>now\<close> (milliseconds),
  the pending timers of the host as triples of identifier, due time and the game state
  that the scheduled callback closes over, the next identifier the host hands out
  (identifiers are positive and never reused), and the variable \<open>timeout\<close> of the
  closure around autoSave (\<open>None\<close> for \<^verbatim>\<open>null\<close>).
\<close>

record page =
  store :: storage
  now :: nat
  timers :: "(nat \<times> nat \<times> json) list"
  next_id :: nat
  timeout :: "nat option"

definition setTimeout :: "json \<Rightarrow> nat \<Rightarrow> page \<Rightarrow> nat \<times> page" where
  "setTimeout gameState delay w =
     (next_id w,
      w\<lparr>timers := timers w @ [(next_id w, now w + delay, gameState)],
        next_id := Suc (next_id w)\<rparr>)"

definition clearTimeout :: "nat \<Rightarrow> page \<Rightarrow> page" where
  "clearTimeout t w = w\<lparr>timers := filter (\<lambda>(i, due, g). i \<noteq> t) (timers w)\<rparr>"

definition autoSave :: "json \<Rightarrow> page \<Rightarrow> page" where
  "autoSave gameState w =
     (let w1 = (case timeout w of
                  None \<Rightarrow> w
                | Some t \<Rightarrow> if t \<noteq> 0 then clearTimeout t w else w)
      in case setTimeout gameState 2000 w1 of
           (t', w2) \<Rightarrow> w2\<lparr>timeout := Some t'\<rparr>)"

text \<open>
  The scheduled callback \<^verbatim>\<open>() => { GameStateManager.saveGameState(gameState); }\<close>,
  run at the time \<open>due\<close>: the result of saveGameState is dropped.
\<close>

definition callback :: "nat \<times> nat \<times> json \<Rightarrow> storage \<Rightarrow> storage" where
  "callback tm s = (case tm of (i, due, g) \<Rightarrow> snd (saveGameState due g s))"

text \<open>
  \<open>d\<close> milliseconds pass with no call from the page. A punctual host runs every
  timer that falls due in that time, at its due time and in the order of scheduling.
  The first component of the result lists the calls of saveGameState made, as pairs of
  time and game state.
\<close>

definition is_due :: "nat \<Rightarrow> nat \<times> nat \<times> json \<Rightarrow> bool" where
  "is_due t tm = (case tm of (i, due, g) \<Rightarrow> due \<le> t)"

definition elapse :: "nat \<Rightarrow> page \<Rightarrow> (nat \<times> json) list \<times> page" where
  "elapse d w =
     (let t = now w + d;
          fired = filter (is_due t) (timers w)
      in (map snd fired,
          w\<lparr>store := fold callback fired (store w),
            now := t,
            timers := filter (\<lambda>tm. \<not> is_due t tm) (timers w)\<rparr>))"

text \<open>A freshly loaded page: no timer pending, \<^verbatim>\<open>let timeout = null\<close>.\<close>

definition load_page :: "storage \<Rightarrow> nat \<Rightarrow> page" where
  "load_page s t = \<lparr>store = s, now = t, timers = [], next_id = 1, timeout = None\<rparr>"

text \<open>
  What can happen on a page: a call of one of the state-changing operations of the four
  managers, or time passing. The other operations only read the store.
\<close>

datatype event =
    SaveUser json
  | UpdateStats string json
  | SaveGameState json
  | ClearGameState
  | AutoSave json
  | AddGameToHistory json
  | ClearHistory
  | SaveSettings json
  | Elapse nat

fun exec :: "event \<Rightarrow> page \<Rightarrow> page" where
  "exec (SaveUser u) w = w\<lparr>store := snd (saveUser u (store w))\<rparr>"
| "exec (UpdateStats n st) w =
     (case updateStats n st (store w) of Inl e \<Rightarrow> w | Inr s' \<Rightarrow> w\<lparr>store := s'\<rparr>)"
| "exec (SaveGameState g) w = w\<lparr>store := snd (saveGameState (now w) g (store w))\<rparr>"
| "exec ClearGameState w = w\<lparr>store := clearGameState (store w)\<rparr>"
| "exec (AutoSave g) w = autoSave g w"
| "exec (AddGameToHistory g) w = w\<lparr>store := addGameToHistory (now w) (now w) g (store w)\<rparr>"
| "exec ClearHistory w = w\<lparr>store := clearHistory (store w)\<rparr>"
| "exec (SaveSettings x) w = w\<lparr>store := saveSettings x (store w)\<rparr>"
| "exec (Elapse d) w = snd (elapse d w)"

definition run :: "event list \<Rightarrow> page \<Rightarrow> page" where
  "run es w = fold exec es w"

section \<open>The data model of the stored collections\<close>

text \<open>
  A user record is an object whose username is a string; a user list holds user records
  with pairwise different usernames.
\<close>

definition is_user :: "json \<Rightarrow> bool" where
  "is_user u =
     (case u of
        JObj m \<Rightarrow> (case m ''username'' of Some (JStr n) \<Rightarrow> True | _ \<Rightarrow> False)
      | _ \<Rightarrow> False)"

definition user_list :: "json list \<Rightarrow> bool" where
  "user_list users =
     (list_all is_user users \<and> distinct (map (\<lambda>u. own_props u ''username'') users))"

text \<open>
  A sequence of addGameToHistory calls, each with its two clock readings and its game
  data, and the entry that a call builds.
\<close>

definition addGames :: "(nat \<times> nat \<times> json) list \<Rightarrow> storage \<Rightarrow> storage" where
  "addGames calls s =
     fold (\<lambda>c s'. case c of (date, millis, gameData) \<Rightarrow> addGameToHistory date millis gameData s')
       calls s"

definition entry :: "nat \<times> nat \<times> json \<Rightarrow> json" where
  "entry c = (case c of (date, millis, gameData) \<Rightarrow> gameRecord date millis gameData)"

text \<open>
  What holds of the timer queue on every page that only this file schedules timers on: at
  most one timer is pending, it is the one whose identifier the variable \<open>timeout\<close>
  holds, it is not yet due, and identifiers are positive.
\<close>

definition timer_inv :: "page \<Rightarrow> bool" where
  "timer_inv w =
     ((case timers w of
         [] \<Rightarrow> True
       | [(t, due, g)] \<Rightarrow> timeout w = Some t \<and> now w < due
       | _ \<Rightarrow> False)
      \<and> (case timeout w of None \<Rightarrow> True | Some t \<Rightarrow> 0 < t)
      \<and> 0 < next_id w)"

section \<open>Example inputs\<close>

text \<open>A store that accepts every write, empty or holding one item.\<close>

definition unlimited :: "(string \<Rightarrow> payload option) \<Rightarrow> bool" where
  "unlimited m = True"

definition empty_store :: storage where
  "empty_store = \<lparr>items = Map.empty, quota = unlimited\<rparr>"

definition store_with :: "string \<Rightarrow> payload \<Rightarrow> storage" where
  "store_with k v = \<lparr>items = [k \<mapsto> v], quota = unlimited\<rparr>"

text \<open>A store that is full: it refuses every write.\<close>

definition full :: "(string \<Rightarrow> payload option) \<Rightarrow> bool" where
  "full m = False"

definition full_store_with :: "string \<Rightarrow> payload \<Rightarrow> storage" where
  "full_store_with k v = \<lparr>items = [k \<mapsto> v], quota = full\<rparr>"

text \<open>Sixty finished games, the i-th added at time i.\<close>

definition game :: "nat \<Rightarrow> nat \<times> nat \<times> json" where
  "game i = (i, i, JObj [''game'' \<mapsto> JNum (int i)])"

definition sixty_games :: "(nat \<times> nat \<times> json) list" where
  "sixty_games = map game [1..<61]"

text \<open>Two user records, and a store holding them.\<close>

definition ann :: json where
  "ann = JObj [''username'' \<mapsto> JStr ''ann'', ''password'' \<mapsto> JStr ''pw1'']"

definition bob :: json where
  "bob = JObj [''username'' \<mapsto> JStr ''bob'', ''password'' \<mapsto> JStr ''pw2'',
               ''stats'' \<mapsto> JObj [''wins'' \<mapsto> JNum 2]]"

definition two_users :: storage where
  "two_users = store_with USER_DATA (Text (JArr [ann, bob]))"

text \<open>A new password for bob.\<close>

definition bob_update :: json where
  "bob_update = JObj [''username'' \<mapsto> JStr ''bob'', ''password'' \<mapsto> JStr ''pw3'']"

text \<open>Two game states.\<close>

definition state1 :: json where
  "state1 = JObj [''turn'' \<mapsto> JNum 1]"

definition state2 :: json where
  "state2 = JObj [''turn'' \<mapsto> JNum 2]"

section \<open>Properties\<close>

subsection \<open>Array search\<close>

lemma findIndex_SomeD:
  "findIndex p xs = Inr (Some i) \<Longrightarrow>
     i < length xs \<and> p (xs ! i) = Inr True \<and> (\<forall>j<i. p (xs ! j) = Inr False)"
proof (induction xs arbitrary: i)
  case Nil
  then show ?case by simp
next
  case (Cons x xs)
  show ?case
  proof (cases "p x = Inr True")
    case True
    with Cons.prems show ?thesis by simp
  next
    case False
    with Cons.prems obtain k where px: "p x = Inr False" and k: "findIndex p xs = Inr (Some k)"
      and i: "i = Suc k"
      by (auto split: sum.splits option.splits bool.splits)
    from Cons.IH [OF k] have "k < length xs" "p (xs ! k) = Inr True"
      "\<forall>j<k. p (xs ! j) = Inr False" by simp_all
    with px i show ?thesis by (auto simp: less_Suc_eq_0_disj)
  qed
qed

lemma findIndex_SomeI:
  "i < length xs \<Longrightarrow> p (xs ! i) = Inr True \<Longrightarrow> \<forall>j<i. p (xs ! j) = Inr False \<Longrightarrow>
     findIndex p xs = Inr (Some i)"
proof (induction xs arbitrary: i)
  case Nil
  then show ?case by simp
next
  case (Cons x xs)
  show ?case
  proof (cases i)
    case 0
    with Cons.prems show ?thesis by simp
  next
    case (Suc k)
    with Cons.prems have px: "p x = Inr False" by auto
    from Suc Cons.prems have "k < length xs" "p (xs ! k) = Inr True"
      "\<forall>j<k. p (xs ! j) = Inr False" by auto
    then have "findIndex p xs = Inr (Some k)" by (rule Cons.IH)
    with px Suc show ?thesis by simp
  qed
qed

lemma findIndex_None_iff:
  "findIndex p xs = Inr None \<longleftrightarrow> (\<forall>x\<in>set xs. p x = Inr False)"
  by (induction xs) (auto split: sum.splits option.splits bool.splits)

lemma find_first_findIndex:
  "find_first p xs =
     (case findIndex p xs of
        Inl e \<Rightarrow> Inl e
      | Inr None \<Rightarrow> Inr None
      | Inr (Some i) \<Rightarrow> Inr (Some (xs ! i)))"
  by (induction xs) (auto split: sum.splits option.splits bool.splits)

subsection \<open>Clearing a partition\<close>

text \<open>
  Claim C8. clearGameState and clearHistory are idempotent: from any store, calling
  either one twice in a row gives the same store as calling it once, with the key of the
  partition absent. Neither can raise: each is a single \<^verbatim>\<open>removeItem\<close>, which
  returns a store and no exception.
\<close>

theorem clear_idempotent:
  "clearGameState (clearGameState s) = clearGameState s
   \<and> getItem (clearGameState s) GAME_STATE = None
   \<and> clearHistory (clearHistory s) = clearHistory s
   \<and> getItem (clearHistory s) GAME_HISTORY = None"
  by (simp add: clearGameState_def clearHistory_def removeItem_def getItem_def)

subsection \<open>Settings\<close>

text \<open>
  Claim C6. When the settings key is absent or its text cannot be decoded, loadSettings
  returns exactly the default record (soundEnabled true, autoSave true, difficulty
  medium). When a record was stored, it returns the shallow merge of the stored record
  over the defaults: every stored field, known or extra, is in the result with its
  stored value. The result always has the three known fields. After
  saveSettings of the record with the one field difficulty hard, accepted by the store,
  loadSettings returns soundEnabled true, autoSave true, difficulty hard.
\<close>

theorem loadSettings_merge:
  "(getItem s SETTINGS = None \<or> getItem s SETTINGS = Some (Malformed t) \<longrightarrow>
      loadSettings s =
        JObj [''soundEnabled'' \<mapsto> JBool True, ''autoSave'' \<mapsto> JBool True,
              ''difficulty'' \<mapsto> JStr ''medium''])
   \<and> (getItem s SETTINGS = Some (Text v) \<longrightarrow>
      loadSettings s =
        JObj ([''soundEnabled'' \<mapsto> JBool True, ''autoSave'' \<mapsto> JBool True,
               ''difficulty'' \<mapsto> JStr ''medium''] ++ own_props v)
      \<and> (\<forall>k x. own_props v k = Some x \<longrightarrow> own_props (loadSettings s) k = Some x))
   \<and> {''soundEnabled'', ''autoSave'', ''difficulty''} \<subseteq> dom (own_props (loadSettings s))
   \<and> (quota s ((items s)(SETTINGS \<mapsto> Text (JObj [''difficulty'' \<mapsto> JStr ''hard'']))) \<longrightarrow>
        loadSettings (saveSettings (JObj [''difficulty'' \<mapsto> JStr ''hard'']) s) =
          JObj [''soundEnabled'' \<mapsto> JBool True, ''autoSave'' \<mapsto> JBool True,
                ''difficulty'' \<mapsto> JStr ''hard''])"
proof (intro conjI impI)
  assume "getItem s SETTINGS = None \<or> getItem s SETTINGS = Some (Malformed t)"
  then show "loadSettings s =
        JObj [''soundEnabled'' \<mapsto> JBool True, ''autoSave'' \<mapsto> JBool True,
              ''difficulty'' \<mapsto> JStr ''medium'']"
    by (auto simp: loadSettings_def defaults_def)
next
  assume "getItem s SETTINGS = Some (Text v)"
  then show "loadSettings s =
        JObj ([''soundEnabled'' \<mapsto> JBool True, ''autoSave'' \<mapsto> JBool True,
               ''difficulty'' \<mapsto> JStr ''medium''] ++ own_props v)"
    by (simp add: loadSettings_def defaults_def)
next
  assume "getItem s SETTINGS = Some (Text v)"
  then show "\<forall>k x. own_props v k = Some x \<longrightarrow> own_props (loadSettings s) k = Some x"
    by (simp add: loadSettings_def map_add_def)
next
  show "{''soundEnabled'', ''autoSave'', ''difficulty''} \<subseteq> dom (own_props (loadSettings s))"
  proof (cases "getItem s SETTINGS")
    case None
    then show ?thesis by (simp add: loadSettings_def defaults_def)
  next
    case (Some a)
    then show ?thesis
      by (cases a) (auto simp: loadSettings_def defaults_def map_add_def split: option.splits)
  qed
next
  assume "quota s ((items s)(SETTINGS \<mapsto> Text (JObj [''difficulty'' \<mapsto> JStr ''hard''])))"
  then show "loadSettings (saveSettings (JObj [''difficulty'' \<mapsto> JStr ''hard'']) s) =
          JObj [''soundEnabled'' \<mapsto> JBool True, ''autoSave'' \<mapsto> JBool True,
                ''difficulty'' \<mapsto> JStr ''hard'']"
    by (simp add: loadSettings_def saveSettings_def setItem_def getItem_def
        JSON_stringify_def defaults_def)
qed

text \<open>
  The cases of C6 on the empty store, on a store whose settings text is cut off, on a
  stored record with the extra field theme, and after saving difficulty hard.
\<close>

theorem loadSettings_merge_witness:
  "loadSettings empty_store =
     JObj [''soundEnabled'' \<mapsto> JBool True, ''autoSave'' \<mapsto> JBool True,
           ''difficulty'' \<mapsto> JStr ''medium'']
   \<and> loadSettings (store_with SETTINGS (Malformed ''{oops'')) =
     JObj [''soundEnabled'' \<mapsto> JBool True, ''autoSave'' \<mapsto> JBool True,
           ''difficulty'' \<mapsto> JStr ''medium'']
   \<and> own_props (loadSettings (store_with SETTINGS
          (Text (JObj [''difficulty'' \<mapsto> JStr ''easy'', ''theme'' \<mapsto> JStr ''dark''])))) ''theme''
       = Some (JStr ''dark'')
   \<and> loadSettings (saveSettings (JObj [''difficulty'' \<mapsto> JStr ''hard'']) empty_store) =
     JObj [''soundEnabled'' \<mapsto> JBool True, ''autoSave'' \<mapsto> JBool True,
           ''difficulty'' \<mapsto> JStr ''hard'']"
  using loadSettings_merge [of empty_store "''{oops''" JNull]
    loadSettings_merge [of "store_with SETTINGS (Malformed ''{oops'')" "''{oops''" JNull]
    loadSettings_merge [of "store_with SETTINGS
          (Text (JObj [''difficulty'' \<mapsto> JStr ''easy'', ''theme'' \<mapsto> JStr ''dark'']))" "[]"
          "JObj [''difficulty'' \<mapsto> JStr ''easy'', ''theme'' \<mapsto> JStr ''dark'']"]
  by (simp add: empty_store_def store_with_def unlimited_def getItem_def)

subsection \<open>The game snapshot\<close>

text \<open>
  Claim C5. For every game-state object, a saveGameState that succeeds, followed at once
  by loadGameState, returns that object extended with the field timestamp (the ISO-8601
  rendering of the time of the save) and the field version, "1.0". hasSavedGame is false
  while the key has never been written and true after a successful save. The save
  succeeds exactly when the store accepts the write.
\<close>

theorem saveGameState_roundtrip:
  "(fst (saveGameState date (JObj m) s) \<longrightarrow>
      loadGameState (snd (saveGameState date (JObj m) s)) =
        JObj (m(''timestamp'' \<mapsto> JStr (toISOString date), ''version'' \<mapsto> JStr ''1.0''))
      \<and> hasSavedGame (snd (saveGameState date (JObj m) s)))
   \<and> (getItem s GAME_STATE = None \<longrightarrow> \<not> hasSavedGame s)
   \<and> (fst (saveGameState date (JObj m) s) \<longleftrightarrow>
        quota s ((items s)(GAME_STATE \<mapsto> Text (JObj (m(''timestamp'' \<mapsto> JStr (toISOString date),
           ''version'' \<mapsto> JStr ''1.0''))))))"
  by (simp add: saveGameState_def saveGameState_try_def setItem_def loadGameState_def
      hasSavedGame_def getItem_def JSON_stringify_def)

text \<open>C5 on the empty store, saving a state with the one field turn at time 1000.\<close>

theorem saveGameState_roundtrip_witness:
  "\<not> hasSavedGame empty_store
   \<and> fst (saveGameState 1000 (JObj [''turn'' \<mapsto> JNum 3]) empty_store)
   \<and> hasSavedGame (snd (saveGameState 1000 (JObj [''turn'' \<mapsto> JNum 3]) empty_store))
   \<and> loadGameState (snd (saveGameState 1000 (JObj [''turn'' \<mapsto> JNum 3]) empty_store)) =
       JObj [''turn'' \<mapsto> JNum 3, ''timestamp'' \<mapsto> JStr (toISOString 1000),
             ''version'' \<mapsto> JStr ''1.0'']"
  using saveGameState_roundtrip [of 1000 "[''turn'' \<mapsto> JNum 3]" empty_store]
  by (simp add: empty_store_def unlimited_def getItem_def)

subsection \<open>The game history\<close>

text \<open>
  Claim C9. When the stored history text cannot be decoded, getHistory absorbs the
  failure and returns the empty sequence, and the next addGameToHistory (whose write the
  store accepts) replaces the whole history partition with the list of the one new
  entry: what was stored before is gone. addGameToHistory returns nothing to its
  caller, so no error is reported.
\<close>

theorem malformed_history_replaced:
  "getItem s GAME_HISTORY = Some (Malformed t) \<Longrightarrow>
   quota s ((items s)(GAME_HISTORY \<mapsto> Text (JArr [gameRecord date millis gameData]))) \<Longrightarrow>
     getHistory s = JArr []
     \<and> items (addGameToHistory date millis gameData s) =
         (items s)(GAME_HISTORY \<mapsto> Text (JArr [gameRecord date millis gameData]))
     \<and> getHistory (addGameToHistory date millis gameData s) =
         JArr [gameRecord date millis gameData]"
  by (simp add: getHistory_def addGameToHistory_def addGameToHistory_try_def setItem_def
      getItem_def JSON_stringify_def)

text \<open>C9 on a store whose history text is cut off after two characters.\<close>

theorem malformed_history_replaced_witness:
  "getHistory (store_with GAME_HISTORY (Malformed ''[{'')) = JArr []
   \<and> getHistory (addGameToHistory 1000 1001 (JObj [''winner'' \<mapsto> JStr ''ann''])
         (store_with GAME_HISTORY (Malformed ''[{''))) =
       JArr [JObj [''winner'' \<mapsto> JStr ''ann'', ''completedAt'' \<mapsto> JStr (toISOString 1000),
                   ''id'' \<mapsto> JNum 1001]]"
  using malformed_history_replaced [of "store_with GAME_HISTORY (Malformed ''[{'')" "''[{''"
      1000 1001 "JObj [''winner'' \<mapsto> JStr ''ann'']"]
  by (simp add: store_with_def unlimited_def getItem_def gameRecord_def)

lemma addGameToHistory_step:
  "getHistory s = JArr h \<Longrightarrow>
   addGameToHistory d m g s =
     (if quota s ((items s)(GAME_HISTORY \<mapsto> Text (JArr (take 50 (gameRecord d m g # h)))))
      then s\<lparr>items := (items s)(GAME_HISTORY \<mapsto> Text (JArr (take 50 (gameRecord d m g # h))))\<rparr>
      else s)"
  by (simp add: addGameToHistory_def addGameToHistory_try_def setItem_def JSON_stringify_def
      Let_def)

lemma getHistory_written:
  "getHistory (s\<lparr>items := (items s)(GAME_HISTORY \<mapsto> Text v)\<rparr>) = v"
  by (simp add: getHistory_def getItem_def)

lemma quota_addGameToHistory: "quota (addGameToHistory d m g s) = quota s"
  by (simp add: addGameToHistory_def addGameToHistory_try_def setItem_def Let_def
      split: sum.splits)

lemma getHistory_step:
  "getHistory s = JArr h \<Longrightarrow>
   getHistory (addGameToHistory d m g s) =
     (if quota s ((items s)(GAME_HISTORY \<mapsto> Text (JArr (take 50 (gameRecord d m g # h)))))
      then JArr (take 50 (gameRecord d m g # h)) else JArr h)"
  by (simp add: addGameToHistory_step getHistory_written)

lemma addGames_Cons:
  "addGames ((d, m, g) # calls) s = addGames calls (addGameToHistory d m g s)"
  by (simp add: addGames_def)

lemma addGames_bounded:
  "getHistory s = JArr h \<Longrightarrow> length h \<le> 50 \<Longrightarrow>
   \<exists>h'. getHistory (addGames calls s) = JArr h' \<and> length h' \<le> 50"
proof (induction calls arbitrary: s h)
  case Nil
  then show ?case by (simp add: addGames_def)
next
  case (Cons c calls)
  obtain d m g where c: "c = (d, m, g)" by (cases c)
  from Cons.prems obtain h1 where "getHistory (addGameToHistory d m g s) = JArr h1"
    and "length h1 \<le> 50"
    by (cases "quota s ((items s)(GAME_HISTORY \<mapsto> Text (JArr (take 50 (gameRecord d m g # h)))))")
      (simp_all add: getHistory_step del: take_Cons_numeral)
  then show ?case unfolding c addGames_Cons by (rule Cons.IH)
qed

lemma take_append_take: "take n (xs @ take n ys) = take n (xs @ ys)"
  by (simp add: min_def)

lemma addGames_newest_first:
  "getHistory s = JArr h \<Longrightarrow> length h \<le> 50 \<Longrightarrow> \<forall>c. quota s c \<Longrightarrow>
   getHistory (addGames calls s) = JArr (take 50 (rev (map entry calls) @ h))"
proof (induction calls arbitrary: s h)
  case Nil
  then show ?case by (simp add: addGames_def)
next
  case (Cons c calls)
  obtain d m g where c: "c = (d, m, g)" by (cases c)
  let ?s1 = "addGameToHistory d m g s"
  from Cons.prems have h1: "getHistory ?s1 = JArr (take 50 (gameRecord d m g # h))"
    by (simp add: getHistory_step del: take_Cons_numeral)
  have l1: "length (take 50 (gameRecord d m g # h)) \<le> 50" by simp
  from Cons.prems have q: "\<forall>c. quota ?s1 c" by (simp add: quota_addGameToHistory)
  have "getHistory (addGames calls ?s1) =
      JArr (take 50 (rev (map entry calls) @ take 50 (gameRecord d m g # h)))"
    using h1 l1 q by (rule Cons.IH)
  also have "take 50 (rev (map entry calls) @ take 50 (gameRecord d m g # h)) =
      take 50 (rev (map entry calls) @ gameRecord d m g # h)"
    by (rule take_append_take)
  finally have "getHistory (addGames calls ?s1) =
      JArr (take 50 (rev (map entry calls) @ gameRecord d m g # h))" .
  moreover have "entry (d, m, g) = gameRecord d m g" by (simp add: entry_def)
  ultimately show ?case unfolding c by (simp add: addGames_Cons)
qed

text \<open>
  Claim C2. From every store whose history is a sequence of at most 50 entries (the
  empty sequence when the key is absent), after every sequence of addGameToHistory calls
  getHistory returns a sequence of at most 50 entries. A call whose write the store
  accepts puts the new entry at index 0 in front of the previous sequence and keeps the
  first 50; a refused write leaves the history as it was. When the store accepts every
  write the history is the entries of the calls, newest first, followed by the old
  history, cut to 50. In particular after 60 calls on a store without history the
  history has exactly 50 entries and its first element is the entry of the 60th call.
\<close>

theorem history_newest_first_bounded:
  assumes "getHistory s = JArr h" and "length h \<le> 50"
  shows "(\<exists>h'. getHistory (addGames calls s) = JArr h' \<and> length h' \<le> 50)
    \<and> getHistory (addGameToHistory d m g s) =
        (if quota s ((items s)(GAME_HISTORY \<mapsto> Text (JArr (take 50 (gameRecord d m g # h)))))
         then JArr (take 50 (gameRecord d m g # h)) else JArr h)
    \<and> ((\<forall>c. quota s c) \<longrightarrow>
          getHistory (addGames calls s) = JArr (take 50 (rev (map entry calls) @ h)))
    \<and> ((\<forall>c. quota s c) \<and> getItem s GAME_HISTORY = None \<and> length calls = 60 \<longrightarrow>
          (\<exists>h'. getHistory (addGames calls s) = JArr h' \<and> length h' = 50
             \<and> h' ! 0 = entry (last calls)))"
proof (intro conjI impI)
  show "\<exists>h'. getHistory (addGames calls s) = JArr h' \<and> length h' \<le> 50"
    using assms by (rule addGames_bounded)
next
  show "getHistory (addGameToHistory d m g s) =
        (if quota s ((items s)(GAME_HISTORY \<mapsto> Text (JArr (take 50 (gameRecord d m g # h)))))
         then JArr (take 50 (gameRecord d m g # h)) else JArr h)"
    using assms(1) by (rule getHistory_step)
next
  assume "\<forall>c. quota s c"
  with assms show "getHistory (addGames calls s) = JArr (take 50 (rev (map entry calls) @ h))"
    by (intro addGames_newest_first)
next
  assume a: "(\<forall>c. quota s c) \<and> getItem s GAME_HISTORY = None \<and> length calls = 60"
  then have "getHistory s = JArr []" by (simp add: getHistory_def)
  with a have g: "getHistory (addGames calls s) = JArr (take 50 (rev (map entry calls) @ []))"
    by (intro addGames_newest_first) simp_all
  from a have ne: "calls \<noteq> []" by auto
  have "take 50 (rev (map entry calls)) ! 0 = entry (last calls)"
    using a ne by (simp add: rev_nth last_conv_nth)
  with g a show "\<exists>h'. getHistory (addGames calls s) = JArr h' \<and> length h' = 50
             \<and> h' ! 0 = entry (last calls)"
    by simp
qed

text \<open>C2 for the sixty games added to the empty store.\<close>

theorem history_newest_first_bounded_witness:
  "\<exists>h'. getHistory (addGames sixty_games empty_store) = JArr h' \<and> length h' = 50
      \<and> h' ! 0 = JObj [''game'' \<mapsto> JNum 60, ''completedAt'' \<mapsto> JStr (toISOString 60),
                       ''id'' \<mapsto> JNum 60]"
proof -
  have e: "entry (last sixty_games) =
      JObj [''game'' \<mapsto> JNum 60, ''completedAt'' \<mapsto> JStr (toISOString 60), ''id'' \<mapsto> JNum 60]"
    by (simp add: sixty_games_def last_map entry_def game_def gameRecord_def)
  have q: "\<forall>c. quota empty_store c" by (simp add: empty_store_def unlimited_def)
  have n: "getItem empty_store GAME_HISTORY = None" by (simp add: getItem_def empty_store_def)
  have len: "length sixty_games = 60" by (simp add: sixty_games_def)
  have "getHistory empty_store = JArr []" "length ([]::json list) \<le> 50"
    by (simp_all add: getHistory_def n)
  from history_newest_first_bounded [OF this, of sixty_games] q n len
  have "\<exists>h'. getHistory (addGames sixty_games empty_store) = JArr h' \<and> length h' = 50
      \<and> h' ! 0 = entry (last sixty_games)"
    by blast
  then show ?thesis by (simp only: e)
qed

subsection \<open>User records\<close>

text \<open>An array index is never the property name username, so only an object has that property.\<close>

lemma show_nat_digits: "set (show_nat n) \<subseteq> set ''0123456789''"
proof (induction n rule: show_nat.induct)
  case (1 n)
  have d: "''0123456789'' ! k \<in> set ''0123456789''" if "k < 10" for k
    using that by (intro nth_mem) simp
  show ?case
  proof (cases "n < 10")
    case True
    then show ?thesis using d [of n] by (subst show_nat.simps) simp
  next
    case False
    have "n mod 10 < 10" by simp
    from d [OF this] 1 False show ?thesis by (subst show_nat.simps) simp
  qed
qed

lemma show_nat_not_username: "show_nat i \<noteq> ''username''"
proof
  assume "show_nat i = ''username''"
  then have "CHR ''u'' \<in> set (show_nat i)" by simp
  with show_nat_digits [of i] show False by auto
qed

lemma index_props_username [simp]: "index_props xs ''username'' = None"
proof -
  have "''username'' \<notin> set (map show_nat [0..<length xs])"
  proof
    assume "''username'' \<in> set (map show_nat [0..<length xs])"
    then obtain i where "show_nat i = ''username''" by auto
    with show_nat_not_username show False by blast
  qed
  then have "''username'' \<notin> fst ` set (zip (map show_nat [0..<length xs]) xs)"
    by (auto dest: set_zip_leftD)
  then show ?thesis by (simp add: index_props_def map_of_eq_None_iff)
qed

lemma username_is_object:
  "own_props u ''username'' = Some v \<Longrightarrow> \<exists>old. u = JObj old"
  by (cases u) simp_all

lemma strict_eq_JStr [simp]: "strict_eq a (Some (JStr n)) = (a = Some (JStr n))"
  by (cases "(a, Some (JStr n))" rule: strict_eq.cases) auto

lemma same_username_object:
  "m ''username'' = Some (JStr n) \<Longrightarrow> same_username (JObj m) = has_username n"
  by (rule ext) (simp add: same_username_def has_username_def split: sum.splits)

lemma has_username_True:
  "has_username n u = Inr True \<longleftrightarrow> own_props u ''username'' = Some (JStr n)"
  by (cases u) (simp_all add: has_username_def)

lemma has_username_False:
  "has_username n u = Inr False \<longleftrightarrow> u \<noteq> JNull \<and> own_props u ''username'' \<noteq> Some (JStr n)"
  by (cases u) (simp_all add: has_username_def)

subsection \<open>Authentication\<close>

lemma is_user_object:
  assumes "is_user u"
  shows "\<exists>m n. u = JObj m \<and> m ''username'' = Some (JStr n)"
  using assms
proof (cases u)
  case (JObj m)
  show ?thesis
  proof (cases "m ''username''")
    case None
    with JObj assms show ?thesis by (simp add: is_user_def)
  next
    case (Some v)
    with JObj assms show ?thesis by (cases v) (simp_all add: is_user_def)
  qed
qed (simp_all add: is_user_def)

lemma find_first_users:
  "list_all is_user users \<Longrightarrow>
   find_first (has_username n) users =
     Inr (List.find (\<lambda>u. own_props u ''username'' = Some (JStr n)) users)"
proof (induction users)
  case Nil
  then show ?case by simp
next
  case (Cons u users)
  then obtain m where "u = JObj m" by (auto dest: is_user_object)
  with Cons show ?case by (simp add: has_username_def)
qed

lemma find_distinct:
  "distinct (map f xs) \<Longrightarrow> r \<in> set xs \<Longrightarrow> f r = k \<Longrightarrow>
   List.find (\<lambda>u. f u = k) xs = Some r"
proof (induction xs)
  case Nil
  then show ?case by simp
next
  case (Cons x xs)
  show ?case
  proof (cases "f x = k")
    case True
    have "r = x"
    proof (rule ccontr)
      assume "r \<noteq> x"
      with Cons.prems have "r \<in> set xs" by simp
      then have "f r \<in> set (map f xs)" by simp
      with Cons.prems True show False by simp
    qed
    with True show ?thesis by simp
  next
    case False
    with Cons.prems have "r \<in> set xs" by auto
    with Cons False show ?thesis by simp
  qed
qed

lemma find_Some_mem: "List.find P xs = Some x \<Longrightarrow> x \<in> set xs \<and> P x"
  by (induction xs) (auto split: if_splits)

lemma authenticate_users:
  assumes "getAllUsers s = JArr users" and "list_all is_user users"
  shows "authenticate n p s =
     Inr (case List.find (\<lambda>u. own_props u ''username'' = Some (JStr n)) users of
            None \<Rightarrow> JNull
          | Some u \<Rightarrow> if own_props u ''password'' = Some (JStr p) then u else JNull)"
proof (cases "List.find (\<lambda>u. own_props u ''username'' = Some (JStr n)) users")
  case None
  with assms show ?thesis
    by (simp add: authenticate_def getUser_def find_first_users)
next
  case (Some u)
  then have "u \<in> set users" by (auto dest: find_Some_mem)
  with assms(2) have "is_user u" by (simp add: list_all_iff)
  then obtain m where "u = JObj m" by (auto dest: is_user_object)
  with Some assms show ?thesis
    by (simp add: authenticate_def getUser_def find_first_users)
qed

text \<open>
  Claim C7. On a store whose user data is a user list (or is absent or undecodable, which
  reads as the empty list), for every username and password: authenticate returns a
  stored record exactly when that record has this username and this password, both as
  equal strings, and returns null exactly when no stored record has both. Changing the
  password gives null, and changing the username no longer returns the record.
\<close>

theorem authenticate_exact:
  assumes "getAllUsers s = JArr users" and "user_list users"
  shows "((authenticate n p s = Inr r \<and> r \<noteq> JNull) \<longleftrightarrow>
            (r \<in> set users \<and> own_props r ''username'' = Some (JStr n)
              \<and> own_props r ''password'' = Some (JStr p)))
    \<and> ((\<nexists>u. u \<in> set users \<and> own_props u ''username'' = Some (JStr n)
              \<and> own_props u ''password'' = Some (JStr p)) \<longleftrightarrow>
          authenticate n p s = Inr JNull)
    \<and> (r \<in> set users \<and> own_props r ''username'' = Some (JStr n)
          \<and> own_props r ''password'' = Some (JStr p) \<longrightarrow>
        (\<forall>p'. p' \<noteq> p \<longrightarrow> authenticate n p' s = Inr JNull)
        \<and> (\<forall>n'. n' \<noteq> n \<longrightarrow> authenticate n' p s \<noteq> Inr r))"
proof -
  let ?P = "\<lambda>n u. own_props u ''username'' = Some (JStr n)"
  let ?Q = "\<lambda>p u. own_props u ''password'' = Some (JStr p)"
  from assms(2) have users: "list_all is_user users"
    and dist: "distinct (map (\<lambda>u. own_props u ''username'') users)"
    by (simp_all add: user_list_def)
  have auth: "authenticate n' p' s =
     Inr (case List.find (?P n') users of
            None \<Rightarrow> JNull
          | Some u \<Rightarrow> if ?Q p' u then u else JNull)" for n' p'
    using assms(1) users by (rule authenticate_users)
  have found: "List.find (?P n') users = Some u" if "u \<in> set users" "?P n' u" for u n'
    using find_distinct [where f = "\<lambda>u. own_props u ''username''" and k = "Some (JStr n')",
        OF dist that] .
  have nonnull: "u \<noteq> JNull" if "u \<in> set users" for u
  proof -
    from users that have "is_user u" by (simp add: list_all_iff)
    from is_user_object [OF this] show ?thesis by blast
  qed
  have hit: "authenticate n' p' s = Inr u" if "u \<in> set users" "?P n' u" "?Q p' u" for u n' p'
    using that(3) found [OF that(1,2)] by (simp add: auth)
  have miss: "authenticate n' p' s = Inr JNull" if "u \<in> set users" "?P n' u" "\<not> ?Q p' u"
    for u n' p'
    using that(3) found [OF that(1,2)] by (simp add: auth)
  have none: "authenticate n' p' s = Inr JNull" if "\<nexists>u. u \<in> set users \<and> ?P n' u" for n' p'
  proof (cases "List.find (?P n') users")
    case None
    then show ?thesis by (simp add: auth)
  next
    case (Some u)
    from find_Some_mem [OF this] that show ?thesis by blast
  qed
  have a1: "r \<in> set users \<and> ?P n r \<and> ?Q p r" if "authenticate n p s = Inr r" "r \<noteq> JNull"
  proof (cases "List.find (?P n) users")
    case None
    with that show ?thesis by (simp add: auth)
  next
    case (Some u)
    from find_Some_mem [OF this] have u: "u \<in> set users" "?P n u" by simp_all
    show ?thesis
    proof (cases "?Q p u")
      case True
      with u have "authenticate n p s = Inr u" by (intro hit)
      with that have "r = u" by simp
      with u True show ?thesis by simp
    next
      case False
      with u have "authenticate n p s = Inr JNull" by (intro miss)
      with that show ?thesis by simp
    qed
  qed
  have a: "(authenticate n p s = Inr r \<and> r \<noteq> JNull) \<longleftrightarrow> (r \<in> set users \<and> ?P n r \<and> ?Q p r)"
  proof
    assume "authenticate n p s = Inr r \<and> r \<noteq> JNull"
    then show "r \<in> set users \<and> ?P n r \<and> ?Q p r" using a1 by blast
  next
    assume r: "r \<in> set users \<and> ?P n r \<and> ?Q p r"
    then have "authenticate n p s = Inr r" by (intro hit) simp_all
    moreover from r have "r \<noteq> JNull" by (intro nonnull) simp
    ultimately show "authenticate n p s = Inr r \<and> r \<noteq> JNull" by simp
  qed
  have b: "(\<nexists>u. u \<in> set users \<and> ?P n u \<and> ?Q p u) \<longleftrightarrow> authenticate n p s = Inr JNull"
  proof
    assume no: "\<nexists>u. u \<in> set users \<and> ?P n u \<and> ?Q p u"
    show "authenticate n p s = Inr JNull"
    proof (cases "\<exists>u. u \<in> set users \<and> ?P n u")
      case True
      then obtain u where u: "u \<in> set users" "?P n u" by blast
      with no have "\<not> ?Q p u" by blast
      with u show ?thesis by (rule miss)
    next
      case False
      then show ?thesis by (rule none)
    qed
  next
    assume null: "authenticate n p s = Inr JNull"
    show "\<nexists>u. u \<in> set users \<and> ?P n u \<and> ?Q p u"
    proof
      assume "\<exists>u. u \<in> set users \<and> ?P n u \<and> ?Q p u"
      then obtain u where u: "u \<in> set users" "?P n u" "?Q p u" by blast
      then have "authenticate n p s = Inr u" by (rule hit)
      with null have "u = JNull" by simp
      with nonnull [OF u(1)] show False by simp
    qed
  qed
  have c1: "authenticate n p' s = Inr JNull"
    if r: "r \<in> set users \<and> ?P n r \<and> ?Q p r" and "p' \<noteq> p" for p'
  proof -
    from that have "\<not> ?Q p' r" by simp
    with r show ?thesis using miss [of r n p'] by blast
  qed
  have c2: "authenticate n' p s \<noteq> Inr r"
    if r: "r \<in> set users \<and> ?P n r \<and> ?Q p r" and "n' \<noteq> n" for n'
  proof
    assume eq: "authenticate n' p s = Inr r"
    from r have rn: "r \<noteq> JNull" by (intro nonnull) simp
    show False
    proof (cases "List.find (?P n') users")
      case None
      with eq rn show ?thesis by (simp add: auth)
    next
      case (Some u)
      from find_Some_mem [OF this] have u: "u \<in> set users" "?P n' u" by simp_all
      show ?thesis
      proof (cases "?Q p u")
        case True
        with u have "authenticate n' p s = Inr u" by (intro hit)
        with eq have "u = r" by simp
        with u r that(2) show ?thesis by simp
      next
        case False
        with u have "authenticate n' p s = Inr JNull" by (intro miss)
        with eq rn show ?thesis by simp
      qed
    qed
  qed
  show ?thesis
  proof (intro conjI impI allI)
    show "(authenticate n p s = Inr r \<and> r \<noteq> JNull) \<longleftrightarrow> (r \<in> set users \<and> ?P n r \<and> ?Q p r)"
      by (rule a)
    show "(\<nexists>u. u \<in> set users \<and> ?P n u \<and> ?Q p u) \<longleftrightarrow> authenticate n p s = Inr JNull"
      by (rule b)
  next
    fix p'
    assume "r \<in> set users \<and> ?P n r \<and> ?Q p r" "p' \<noteq> p"
    then show "authenticate n p' s = Inr JNull" by (rule c1)
  next
    fix n'
    assume "r \<in> set users \<and> ?P n r \<and> ?Q p r" "n' \<noteq> n"
    then show "authenticate n' p s \<noteq> Inr r" by (rule c2)
  qed
qed

text \<open>C7 on the store of ann and bob: each password opens its own account only.\<close>

theorem authenticate_exact_witness:
  "authenticate ''ann'' ''pw1'' two_users = Inr ann
   \<and> authenticate ''ann'' ''pw2'' two_users = Inr JNull
   \<and> authenticate ''bob'' ''pw1'' two_users = Inr JNull
   \<and> authenticate ''bob'' ''pw2'' two_users = Inr bob"
proof -
  have g: "getAllUsers two_users = JArr [ann, bob]"
    by (simp add: getAllUsers_def two_users_def store_with_def getItem_def)
  have u: "user_list [ann, bob]"
    by (simp add: user_list_def is_user_def ann_def bob_def)
  from authenticate_exact [OF g u, of "''ann''" "''pw1''" ann]
    authenticate_exact [OF g u, of "''bob''" "''pw2''" bob]
  show ?thesis
    by (simp add: ann_def bob_def)
qed

subsection \<open>Saving a user\<close>

lemma getAllUsers_written:
  "getAllUsers (s\<lparr>items := (items s)(USER_DATA \<mapsto> Text v)\<rparr>) = v"
  by (simp add: getAllUsers_def getItem_def)

lemma saveUser_cases:
  "saveUser u s =
     (case saveUser_users u s of
        Inl e \<Rightarrow> (False, s)
      | Inr us \<Rightarrow>
          if quota s ((items s)(USER_DATA \<mapsto> Text (JArr us)))
          then (True, s\<lparr>items := (items s)(USER_DATA \<mapsto> Text (JArr us))\<rparr>)
          else (False, s))"
  by (simp add: saveUser_def saveUser_try_def setItem_def JSON_stringify_def split: sum.splits)

lemma saveUser_users_object:
  assumes "m ''username'' = Some (JStr n)" and "getAllUsers s = JArr users"
  shows "saveUser_users (JObj m) s =
     (case findIndex (has_username n) users of
        Inl e \<Rightarrow> Inl e
      | Inr (Some i) \<Rightarrow> Inr (users[i := JObj (own_props (users ! i) ++ m)])
      | Inr None \<Rightarrow> Inr (users @ [JObj m]))"
  using assms
  by (simp add: saveUser_users_def same_username_object split: sum.splits option.splits)

lemma map_add_same: "m ++ m = m"
  by (rule ext) (simp add: map_add_def split: option.splits)

lemma map_add_twice: "(a ++ m) ++ m = a ++ m"
  by (rule ext) (simp add: map_add_def split: option.splits)

text \<open>The list that saveUser writes is a fixed point of the merge.\<close>

lemma saveUser_users_again:
  assumes m: "m ''username'' = Some (JStr n)"
    and g: "getAllUsers s = JArr users"
    and us: "saveUser_users (JObj m) s = Inr us"
    and g1: "getAllUsers s1 = JArr us"
  shows "saveUser_users (JObj m) s1 = Inr us"
proof (cases "findIndex (has_username n) users")
  case (Inl e)
  with us show ?thesis by (simp add: saveUser_users_object [where m = m, OF m g])
next
  case (Inr r)
  show ?thesis
  proof (cases r)
    case None
    with Inr us have eq: "us = users @ [JObj m]"
      by (simp add: saveUser_users_object [where m = m, OF m g])
    from Inr None have no: "\<forall>x\<in>set users. has_username n x = Inr False"
      by (simp add: findIndex_None_iff)
    have "findIndex (has_username n) us = Inr (Some (length users))"
    proof (rule findIndex_SomeI)
      show "length users < length us" by (simp add: eq)
      show "has_username n (us ! length users) = Inr True"
        by (simp add: eq has_username_True m)
      show "\<forall>j<length users. has_username n (us ! j) = Inr False"
        using no by (simp add: eq nth_append)
    qed
    then show ?thesis
      by (simp add: saveUser_users_object [where m = m, OF m g1] eq map_add_same)
  next
    case (Some i)
    with Inr us have eq: "us = users[i := JObj (own_props (users ! i) ++ m)]"
      by (simp add: saveUser_users_object [where m = m, OF m g])
    from Inr Some have "findIndex (has_username n) users = Inr (Some i)" by simp
    from findIndex_SomeD [OF this] have i: "i < length users"
      and before: "\<forall>j<i. has_username n (users ! j) = Inr False"
      by simp_all
    have "findIndex (has_username n) us = Inr (Some i)"
    proof (rule findIndex_SomeI)
      show "i < length us" using i by (simp add: eq)
      show "has_username n (us ! i) = Inr True"
        using i by (simp add: eq has_username_True m)
      show "\<forall>j<i. has_username n (us ! j) = Inr False"
        using before by (simp add: eq)
    qed
    moreover have "us[i := JObj (own_props (us ! i) ++ m)] = us"
      using i by (simp add: eq map_add_twice)
    ultimately show ?thesis
      by (simp add: saveUser_users_object [where m = m, OF m g1])
  qed
qed

lemma getAllUsers_array_or_fail:
  "(\<exists>users. getAllUsers s = JArr users) \<or> saveUser_users u s = Inl TypeError"
  by (cases "getAllUsers s") (simp_all add: saveUser_users_def)

lemma saveUser_twice:
  assumes m: "m ''username'' = Some (JStr n)"
  shows "saveUser (JObj m) (snd (saveUser (JObj m) s)) = saveUser (JObj m) s"
proof (cases "saveUser_users (JObj m) s")
  case (Inl e)
  then show ?thesis by (simp add: saveUser_cases)
next
  case (Inr us)
  with getAllUsers_array_or_fail [of s "JObj m"] obtain users where g: "getAllUsers s = JArr users"
    by auto
  let ?c = "(items s)(USER_DATA \<mapsto> Text (JArr us))"
  show ?thesis
  proof (cases "quota s ?c")
    case False
    with Inr show ?thesis by (simp add: saveUser_cases)
  next
    case True
    let ?s1 = "s\<lparr>items := ?c\<rparr>"
    from Inr True have one: "saveUser (JObj m) s = (True, ?s1)" by (simp add: saveUser_cases)
    have "getAllUsers ?s1 = JArr us" by (rule getAllUsers_written)
    with m g Inr have again: "saveUser_users (JObj m) ?s1 = Inr us"
      by (rule saveUser_users_again)
    have "saveUser (JObj m) ?s1 = (True, ?s1)"
      using True by (simp add: saveUser_cases again)
    with one show ?thesis by simp
  qed
qed

lemma getUser_findIndex:
  assumes "getAllUsers s = JArr users"
  shows "getUser n s =
     (case findIndex (has_username n) users of
        Inl e \<Rightarrow> Inl e
      | Inr None \<Rightarrow> Inr JNull
      | Inr (Some i) \<Rightarrow> Inr (if truthy (users ! i) then users ! i else JNull))"
  using assms by (simp add: getUser_def find_first_findIndex split: sum.splits option.splits)

lemma getUser_after_save:
  assumes m: "m ''username'' = Some (JStr n)"
    and ok: "fst (saveUser (JObj m) s)"
  shows "\<exists>f. getUser n (snd (saveUser (JObj m) s)) = Inr (JObj f)
           \<and> ((getUser n s = Inr JNull \<and> f = m)
                \<or> (\<exists>old. getUser n s = Inr (JObj old) \<and> f = old ++ m))"
proof -
  from ok obtain us where us: "saveUser_users (JObj m) s = Inr us"
    and q: "quota s ((items s)(USER_DATA \<mapsto> Text (JArr us)))"
    by (auto simp: saveUser_cases split: sum.splits if_splits)
  with getAllUsers_array_or_fail [of s "JObj m"] obtain users where g: "getAllUsers s = JArr users"
    by auto
  let ?s1 = "s\<lparr>items := (items s)(USER_DATA \<mapsto> Text (JArr us))\<rparr>"
  from us q have s1: "snd (saveUser (JObj m) s) = ?s1" by (simp add: saveUser_cases)
  have g1: "getAllUsers ?s1 = JArr us" by (rule getAllUsers_written)
  show ?thesis
  proof (cases "findIndex (has_username n) users")
    case (Inl e)
    with us show ?thesis by (simp add: saveUser_users_object [where m = m, OF m g])
  next
    case (Inr r)
    show ?thesis
    proof (cases r)
      case None
      with Inr us have eq: "us = users @ [JObj m]"
        by (simp add: saveUser_users_object [where m = m, OF m g])
      from Inr None have no: "\<forall>x\<in>set users. has_username n x = Inr False"
        by (simp add: findIndex_None_iff)
      have "findIndex (has_username n) us = Inr (Some (length users))"
      proof (rule findIndex_SomeI)
        show "length users < length us" by (simp add: eq)
        show "has_username n (us ! length users) = Inr True"
          by (simp add: eq has_username_True m)
        show "\<forall>j<length users. has_username n (us ! j) = Inr False"
          using no by (simp add: eq nth_append)
      qed
      then have "getUser n ?s1 =
          Inr (if truthy (us ! length users) then us ! length users else JNull)"
        by (simp add: getUser_findIndex [OF g1])
      moreover have "us ! length users = JObj m" by (simp add: eq)
      ultimately have "getUser n ?s1 = Inr (JObj m)" by simp
      moreover from Inr None have "getUser n s = Inr JNull"
        by (simp add: getUser_findIndex [OF g])
      ultimately show ?thesis unfolding s1 by simp
    next
      case (Some i)
      with Inr us have eq: "us = users[i := JObj (own_props (users ! i) ++ m)]"
        by (simp add: saveUser_users_object [where m = m, OF m g])
      from Inr Some have fi: "findIndex (has_username n) users = Inr (Some i)" by simp
      from findIndex_SomeD [OF this] have i: "i < length users"
        and at: "has_username n (users ! i) = Inr True"
        and before: "\<forall>j<i. has_username n (users ! j) = Inr False"
        by simp_all
      from at have "own_props (users ! i) ''username'' = Some (JStr n)"
        by (simp add: has_username_True)
      then obtain old where old: "users ! i = JObj old" by (auto dest: username_is_object)
      have "findIndex (has_username n) us = Inr (Some i)"
      proof (rule findIndex_SomeI)
        show "i < length us" using i by (simp add: eq)
        show "has_username n (us ! i) = Inr True"
          using i by (simp add: eq has_username_True m)
        show "\<forall>j<i. has_username n (us ! j) = Inr False"
          using before by (simp add: eq)
      qed
      then have "getUser n ?s1 = Inr (if truthy (us ! i) then us ! i else JNull)"
        by (simp add: getUser_findIndex [OF g1])
      moreover have "us ! i = JObj (old ++ m)" using i by (simp add: eq old)
      ultimately have "getUser n ?s1 = Inr (JObj (old ++ m))" by simp
      moreover from fi old have "getUser n s = Inr (JObj old)"
        by (simp add: getUser_findIndex [OF g])
      ultimately show ?thesis unfolding s1 by simp
    qed
  qed
qed

text \<open>
  Claim C4. For every user record with a string username, a saveUser that succeeds
  followed by getUser of that username returns a record that has every field of the
  saved record with the saved value: it is the saved record when no record of that
  username was stored, and the shallow merge of the saved record over the stored one
  otherwise, so the other stored fields survive. Saving the same record a second time
  changes nothing: the store and the returned boolean are those of the first save.
\<close>

theorem saveUser_merge_idempotent:
  assumes "m ''username'' = Some (JStr n)"
  shows "(fst (saveUser (JObj m) s) \<longrightarrow>
           (\<exists>f. getUser n (snd (saveUser (JObj m) s)) = Inr (JObj f)
              \<and> (\<forall>k v. m k = Some v \<longrightarrow> f k = Some v)
              \<and> ((getUser n s = Inr JNull \<and> f = m)
                   \<or> (\<exists>old. getUser n s = Inr (JObj old) \<and> f = old ++ m))))
       \<and> saveUser (JObj m) (snd (saveUser (JObj m) s)) = saveUser (JObj m) s"
proof (intro conjI impI)
  assume "fst (saveUser (JObj m) s)"
  with assms obtain f where f: "getUser n (snd (saveUser (JObj m) s)) = Inr (JObj f)"
    "(getUser n s = Inr JNull \<and> f = m) \<or> (\<exists>old. getUser n s = Inr (JObj old) \<and> f = old ++ m)"
    using getUser_after_save by blast
  from f(2) have "\<forall>k v. m k = Some v \<longrightarrow> f k = Some v" by (auto simp: map_add_def)
  with f show "\<exists>f. getUser n (snd (saveUser (JObj m) s)) = Inr (JObj f)
              \<and> (\<forall>k v. m k = Some v \<longrightarrow> f k = Some v)
              \<and> ((getUser n s = Inr JNull \<and> f = m)
                   \<or> (\<exists>old. getUser n s = Inr (JObj old) \<and> f = old ++ m))"
    by blast
next
  show "saveUser (JObj m) (snd (saveUser (JObj m) s)) = saveUser (JObj m) s"
    using assms by (rule saveUser_twice)
qed


text \<open>C4 for a new password of bob: his stats survive, and a second save changes nothing.\<close>

theorem saveUser_merge_idempotent_witness:
  "fst (saveUser bob_update two_users)
   \<and> getUser ''bob'' two_users = Inr bob
   \<and> getUser ''bob'' (snd (saveUser bob_update two_users)) =
       Inr (JObj [''username'' \<mapsto> JStr ''bob'', ''password'' \<mapsto> JStr ''pw3'',
                  ''stats'' \<mapsto> JObj [''wins'' \<mapsto> JNum 2]])
   \<and> saveUser bob_update (snd (saveUser bob_update two_users)) = saveUser bob_update two_users"
proof -
  let ?m = "[''username'' \<mapsto> JStr ''bob'', ''password'' \<mapsto> JStr ''pw3'']"
  let ?old = "[''username'' \<mapsto> JStr ''bob'', ''password'' \<mapsto> JStr ''pw2'',
               ''stats'' \<mapsto> JObj [''wins'' \<mapsto> JNum 2]]"
  have u: "?m ''username'' = Some (JStr ''bob'')" by simp
  have g: "getAllUsers two_users = JArr [ann, bob]"
    by (simp add: getAllUsers_def two_users_def store_with_def getItem_def)
  have q: "quota two_users c" for c
    by (simp add: two_users_def store_with_def unlimited_def)
  have "\<exists>us. saveUser_users bob_update two_users = Inr us"
    by (simp add: saveUser_users_def g same_username_def ann_def bob_def bob_update_def)
  with q have ok: "fst (saveUser bob_update two_users)"
    by (auto simp: saveUser_cases)
  have before: "getUser ''bob'' two_users = Inr bob"
    by (simp add: getUser_def g has_username_def ann_def bob_def)
  have merged: "?old ++ ?m = [''username'' \<mapsto> JStr ''bob'', ''password'' \<mapsto> JStr ''pw3'',
                  ''stats'' \<mapsto> JObj [''wins'' \<mapsto> JNum 2]]"
    by (rule ext) (simp add: map_add_def)
  from saveUser_merge_idempotent [of ?m "''bob''" two_users, OF u] ok before
  have "getUser ''bob'' (snd (saveUser bob_update two_users)) = Inr (JObj (?old ++ ?m))"
    and twice: "saveUser bob_update (snd (saveUser bob_update two_users)) =
       saveUser bob_update two_users"
    by (auto simp: bob_update_def bob_def)
  with ok before merged show ?thesis by simp
qed

lemma findIndex_no_null:
  "JNull \<notin> set users \<Longrightarrow> \<exists>r. findIndex (same_username (JObj m)) users = Inr r"
proof (induction users)
  case Nil
  then show ?case by simp
next
  case (Cons u users)
  then obtain r where r: "findIndex (same_username (JObj m)) users = Inr r" by auto
  from Cons.prems have "u \<noteq> JNull" by auto
  then obtain b where "same_username (JObj m) u = Inr b"
    by (cases u) (simp_all add: same_username_def)
  with r show ?case by (cases b; cases r) simp_all
qed

text \<open>
  Claim C1, as amended. saveUser returns a boolean and cannot raise. Whenever it returns
  false the store is unchanged. It returns false when the stored user data decodes to a
  value that is not an array. When the stored user data reads as an array without null
  entries (the empty array when the key is absent or the text cannot be decoded), saving
  a record object returns false exactly when the store raises on the write. Stored user
  data that cannot be decoded is no failure: it reads as the empty array, and saveUser
  returns true and replaces the partition with the list of the one record when the store
  accepts the write.
\<close>

theorem saveUser_failure:
  "(\<not> fst (saveUser u s) \<longrightarrow> snd (saveUser u s) = s)
   \<and> ((\<nexists>users. getAllUsers s = JArr users) \<longrightarrow> \<not> fst (saveUser u s))
   \<and> (getAllUsers s = JArr users \<and> JNull \<notin> set users \<longrightarrow>
        (\<exists>us. saveUser_users (JObj m) s = Inr us
           \<and> (\<not> fst (saveUser (JObj m) s) \<longleftrightarrow>
                setItem s USER_DATA (JSON_stringify (JArr us)) = Inl QuotaExceededError)))
   \<and> (getItem s USER_DATA = Some (Malformed t) \<longrightarrow>
        saveUser_users u s = Inr [u]
        \<and> (quota s ((items s)(USER_DATA \<mapsto> Text (JArr [u]))) \<longrightarrow>
             saveUser u s = (True, s\<lparr>items := (items s)(USER_DATA \<mapsto> Text (JArr [u]))\<rparr>)))"
proof (intro conjI impI)
  assume "\<not> fst (saveUser u s)"
  then show "snd (saveUser u s) = s"
    by (simp add: saveUser_cases split: sum.splits if_splits)
next
  assume "\<nexists>users. getAllUsers s = JArr users"
  with getAllUsers_array_or_fail [of s u] have "saveUser_users u s = Inl TypeError" by blast
  then show "\<not> fst (saveUser u s)" by (simp add: saveUser_cases)
next
  assume a: "getAllUsers s = JArr users \<and> JNull \<notin> set users"
  then obtain r where "findIndex (same_username (JObj m)) users = Inr r"
    using findIndex_no_null by blast
  with a obtain us where us: "saveUser_users (JObj m) s = Inr us"
    by (cases r) (simp_all add: saveUser_users_def)
  then have "\<not> fst (saveUser (JObj m) s) \<longleftrightarrow>
      setItem s USER_DATA (JSON_stringify (JArr us)) = Inl QuotaExceededError"
    by (simp add: saveUser_cases setItem_def JSON_stringify_def)
  with us show "\<exists>us. saveUser_users (JObj m) s = Inr us
           \<and> (\<not> fst (saveUser (JObj m) s) \<longleftrightarrow>
                setItem s USER_DATA (JSON_stringify (JArr us)) = Inl QuotaExceededError)"
    by blast
next
  assume "getItem s USER_DATA = Some (Malformed t)"
  then show "saveUser_users u s = Inr [u]"
    by (simp add: saveUser_users_def getAllUsers_def)
next
  assume "getItem s USER_DATA = Some (Malformed t)"
  then have "saveUser_users u s = Inr [u]"
    by (simp add: saveUser_users_def getAllUsers_def)
  moreover assume "quota s ((items s)(USER_DATA \<mapsto> Text (JArr [u])))"
  ultimately show "saveUser u s = (True, s\<lparr>items := (items s)(USER_DATA \<mapsto> Text (JArr [u]))\<rparr>)"
    by (simp add: saveUser_cases)
qed

text \<open>
  C1 as amended on four stores: a full store, a store whose user data is the number 7, a
  store with the one user bob, and a store whose user data is cut off.
\<close>

theorem saveUser_failure_witness:
  "\<not> fst (saveUser ann (full_store_with USER_DATA (Text (JArr [bob]))))
   \<and> snd (saveUser ann (full_store_with USER_DATA (Text (JArr [bob])))) =
       full_store_with USER_DATA (Text (JArr [bob]))
   \<and> \<not> fst (saveUser ann (store_with USER_DATA (Text (JNum 7))))
   \<and> fst (saveUser ann (store_with USER_DATA (Text (JArr [bob]))))
   \<and> fst (saveUser ann (store_with USER_DATA (Malformed ''{oops'')))
   \<and> getAllUsers (snd (saveUser ann (store_with USER_DATA (Malformed ''{oops'')))) = JArr [ann]"
proof -
  let ?full = "full_store_with USER_DATA (Text (JArr [bob]))"
  let ?seven = "store_with USER_DATA (Text (JNum 7))"
  let ?one = "store_with USER_DATA (Text (JArr [bob]))"
  let ?bad = "store_with USER_DATA (Malformed ''{oops'')"
  let ?a = "[''username'' \<mapsto> JStr ''ann'', ''password'' \<mapsto> JStr ''pw1'']"
  have gf: "getAllUsers ?full = JArr [bob] \<and> JNull \<notin> set [bob]"
    by (simp add: getAllUsers_def full_store_with_def getItem_def bob_def)
  have go: "getAllUsers ?one = JArr [bob] \<and> JNull \<notin> set [bob]"
    by (simp add: getAllUsers_def store_with_def getItem_def bob_def)
  have g7: "\<nexists>users. getAllUsers ?seven = JArr users"
    by (simp add: getAllUsers_def store_with_def getItem_def)
  have gb: "getItem ?bad USER_DATA = Some (Malformed ''{oops'')"
    by (simp add: store_with_def getItem_def)
  have qb: "quota ?bad ((items ?bad)(USER_DATA \<mapsto> Text (JArr [ann])))"
    by (simp add: store_with_def unlimited_def)
  from saveUser_failure [of ann ?full "[bob]" ?a "[]"] gf
  have 1: "\<not> fst (saveUser ann ?full)" "snd (saveUser ann ?full) = ?full"
    by (auto simp: ann_def setItem_def full_store_with_def full_def)
  from saveUser_failure [of ann ?seven "[]" ?a "[]"] g7
  have 2: "\<not> fst (saveUser ann ?seven)" by blast
  from saveUser_failure [of ann ?one "[bob]" ?a "[]"] go
  have 3: "fst (saveUser ann ?one)"
    by (auto simp: ann_def setItem_def store_with_def unlimited_def)
  from saveUser_failure [of ann ?bad "[]" ?a "''{oops''"] gb qb
  have "saveUser ann ?bad = (True, ?bad\<lparr>items := (items ?bad)(USER_DATA \<mapsto> Text (JArr [ann]))\<rparr>)"
    by blast
  then have 4: "fst (saveUser ann ?bad)" "getAllUsers (snd (saveUser ann ?bad)) = JArr [ann]"
    by (simp_all add: getAllUsers_written)
  from 1 2 3 4 show ?thesis by simp
qed

text \<open>
  Claim C1 as stated fails: on a store whose user data cannot be decoded, saveUser
  returns true and the user partition is overwritten.
\<close>

theorem saveUser_decode_failure_counterexample:
  "JSON_parse (Malformed ''{oops'') = Inl SyntaxError
   \<and> getItem (store_with USER_DATA (Malformed ''{oops'')) USER_DATA = Some (Malformed ''{oops'')
   \<and> fst (saveUser ann (store_with USER_DATA (Malformed ''{oops'')))
   \<and> getItem (snd (saveUser ann (store_with USER_DATA (Malformed ''{oops'')))) USER_DATA
       = Some (Text (JArr [ann]))"
  by (simp add: saveUser_cases saveUser_users_def getAllUsers_def getItem_def store_with_def
      unlimited_def)

subsection \<open>The timer queue\<close>

lemma timer_inv_load: "timer_inv (load_page s t)"
  by (simp add: timer_inv_def load_page_def)

lemma autoSave_result:
  assumes "timer_inv w"
  shows "autoSave g w =
     w\<lparr>timers := [(next_id w, now w + 2000, g)], next_id := Suc (next_id w),
       timeout := Some (next_id w)\<rparr>"
proof (cases "timers w")
  case Nil
  then show ?thesis
    by (cases "timeout w")
      (simp_all add: autoSave_def setTimeout_def clearTimeout_def Let_def)
next
  case (Cons tm rest)
  obtain t due g' where tm: "tm = (t, due, g')" by (cases tm)
  from assms Cons tm have rest: "rest = []" and t: "timeout w = Some t" and pos: "0 < t"
    by (cases rest; simp add: timer_inv_def)+
  with Cons tm show ?thesis
    by (simp add: autoSave_def setTimeout_def clearTimeout_def Let_def)
qed

lemma timer_inv_autoSave: "timer_inv w \<Longrightarrow> timer_inv (autoSave g w)"
  by (simp add: autoSave_result) (simp add: timer_inv_def)

lemma elapse_no_timer:
  "timers w = [] \<Longrightarrow> elapse d w = ([], w\<lparr>now := now w + d\<rparr>)"
  by (simp add: elapse_def Let_def)

lemma elapse_one_timer:
  "timers w = [(t, due, g)] \<Longrightarrow>
   elapse d w =
     (if due \<le> now w + d
      then ([(due, g)],
            w\<lparr>store := snd (saveGameState due g (store w)), now := now w + d, timers := []\<rparr>)
      else ([], w\<lparr>now := now w + d\<rparr>))"
  by (simp add: elapse_def Let_def is_due_def callback_def)

lemma timer_inv_elapse:
  assumes "timer_inv w"
  shows "timer_inv (snd (elapse d w))"
proof (cases "timers w")
  case Nil
  with assms show ?thesis by (simp add: elapse_no_timer timer_inv_def)
next
  case (Cons tm rest)
  obtain t due g where tm: "tm = (t, due, g)" by (cases tm)
  from assms Cons tm have rest: "rest = []"
    by (cases rest) (simp_all add: timer_inv_def)
  with Cons tm have one: "timers w = [(t, due, g)]" by simp
  from assms one show ?thesis
    by (auto simp: elapse_one_timer [OF one] timer_inv_def)
qed

lemma timers_exec_other:
  assumes "\<forall>g. e \<noteq> AutoSave g" and "\<forall>d. e \<noteq> Elapse d"
  shows "timers (exec e w) = timers w \<and> timeout (exec e w) = timeout w
    \<and> next_id (exec e w) = next_id w \<and> now (exec e w) = now w"
  using assms by (cases e) (simp_all split: sum.splits)

lemma timer_inv_same:
  "timers w' = timers w \<and> timeout w' = timeout w \<and> next_id w' = next_id w \<and> now w' = now w \<Longrightarrow>
   timer_inv w' = timer_inv w"
  by (simp add: timer_inv_def split: list.splits prod.splits)

lemma timer_inv_exec:
  assumes "timer_inv w"
  shows "timer_inv (exec e w)"
proof (cases "(\<exists>g. e = AutoSave g) \<or> (\<exists>d. e = Elapse d)")
  case True
  with assms show ?thesis by (auto simp: timer_inv_autoSave timer_inv_elapse)
next
  case False
  then have "\<forall>g. e \<noteq> AutoSave g" and "\<forall>d. e \<noteq> Elapse d" by simp_all
  then have "timer_inv (exec e w) = timer_inv w"
    by (intro timer_inv_same timers_exec_other)
  with assms show ?thesis by simp
qed

lemma timer_inv_run: "timer_inv w \<Longrightarrow> timer_inv (run es w)"
  unfolding run_def by (induction es arbitrary: w) (simp_all add: timer_inv_exec)

lemma timer_inv_at_most_one: "timer_inv w \<Longrightarrow> length (timers w) \<le> 1"
  by (cases "timers w"; cases "tl (timers w)") (auto simp: timer_inv_def)

lemma saveGameState_accepted:
  assumes "quota s ((items s)(GAME_STATE \<mapsto>
      Text (JObj ((own_props g)(''timestamp'' \<mapsto> JStr (toISOString date),
                                 ''version'' \<mapsto> JStr ''1.0'')))))"
  shows "loadGameState (snd (saveGameState date g s)) =
      JObj ((own_props g)(''timestamp'' \<mapsto> JStr (toISOString date), ''version'' \<mapsto> JStr ''1.0''))
    \<and> hasSavedGame (snd (saveGameState date g s))"
  using assms
  by (simp add: saveGameState_def saveGameState_try_def setItem_def loadGameState_def
      hasSavedGame_def getItem_def JSON_stringify_def)

lemma autoSave_then_elapse:
  assumes "timer_inv w"
  shows "elapse d (autoSave g w) =
     (if 2000 \<le> d
      then ([(now w + 2000, g)],
            w\<lparr>store := snd (saveGameState (now w + 2000) g (store w)), now := now w + d,
              timers := [], next_id := Suc (next_id w), timeout := Some (next_id w)\<rparr>)
      else ([], w\<lparr>now := now w + d, timers := [(next_id w, now w + 2000, g)],
                 next_id := Suc (next_id w), timeout := Some (next_id w)\<rparr>))"
proof -
  let ?w1 = "autoSave g w"
  have t: "timers ?w1 = [(next_id w, now w + 2000, g)]"
    by (simp add: autoSave_result [OF assms])
  show ?thesis
    unfolding elapse_one_timer [OF t] by (simp add: autoSave_result [OF assms])
qed

subsection \<open>The debounced save\<close>

text \<open>
  Claim C3. autoSave is a trailing-edge debounce with one shared timer slot. On every
  page reached from a fresh load by any sequence of events: at most one timer is
  pending, before and after a call of autoSave; a call of autoSave leaves exactly the
  timer it has just scheduled, due 2000 ms later with the state of this call, so whatever
  was pending is cancelled and the interval starts again; while less than 2000 ms pass
  after the call nothing is written; once 2000 ms have passed exactly one saveGameState
  has run, at the due time and with the state of the last call, and no timer is pending.
  In particular autoSave of a first state, less than 2000 ms later autoSave of a second
  state, then at least 2000 ms of quiet give no write in the first interval and exactly
  one write in the second, of the second state. The host is taken to run a timer at its
  due time.
\<close>

theorem autoSave_debounce:
  assumes "w = run es (load_page s t0)"
  shows "length (timers w) \<le> 1
    \<and> length (timers (autoSave g w)) \<le> 1
    \<and> timers (autoSave g w) = [(next_id w, now w + 2000, g)]
    \<and> (d < 2000 \<longrightarrow>
          fst (elapse d (autoSave g w)) = []
          \<and> store (snd (elapse d (autoSave g w))) = store w)
    \<and> (2000 \<le> d \<longrightarrow>
          fst (elapse d (autoSave g w)) = [(now w + 2000, g)]
          \<and> timers (snd (elapse d (autoSave g w))) = []
          \<and> store (snd (elapse d (autoSave g w))) =
              snd (saveGameState (now w + 2000) g (store w)))
    \<and> (d1 < 2000 \<and> 2000 \<le> d2 \<longrightarrow>
          fst (elapse d1 (autoSave g1 w)) = []
          \<and> fst (elapse d2 (autoSave g2 (snd (elapse d1 (autoSave g1 w))))) =
              [(now w + d1 + 2000, g2)]
          \<and> store (snd (elapse d2 (autoSave g2 (snd (elapse d1 (autoSave g1 w)))))) =
              snd (saveGameState (now w + d1 + 2000) g2 (store w)))"
proof -
  from assms have inv: "timer_inv w" by (simp add: timer_inv_run timer_inv_load)
  have one: "length (timers w) \<le> 1" using inv by (rule timer_inv_at_most_one)
  have t: "timers (autoSave g w) = [(next_id w, now w + 2000, g)]"
    by (simp add: autoSave_result [OF inv])
  have early: "fst (elapse d (autoSave g w)) = [] \<and> store (snd (elapse d (autoSave g w))) = store w"
    if "d < 2000" for d g
    using that by (simp add: autoSave_then_elapse [OF inv])
  have late: "fst (elapse d (autoSave g w)) = [(now w + 2000, g)]
          \<and> timers (snd (elapse d (autoSave g w))) = []
          \<and> store (snd (elapse d (autoSave g w))) =
              snd (saveGameState (now w + 2000) g (store w))"
    if "2000 \<le> d" for d g
    using that by (simp add: autoSave_then_elapse [OF inv])
  have two: "fst (elapse d1 (autoSave g1 w)) = []
          \<and> fst (elapse d2 (autoSave g2 (snd (elapse d1 (autoSave g1 w))))) =
              [(now w + d1 + 2000, g2)]
          \<and> store (snd (elapse d2 (autoSave g2 (snd (elapse d1 (autoSave g1 w)))))) =
              snd (saveGameState (now w + d1 + 2000) g2 (store w))"
    if d: "d1 < 2000 \<and> 2000 \<le> d2"
  proof -
    let ?w1 = "snd (elapse d1 (autoSave g1 w))"
    have inv1: "timer_inv ?w1"
      using inv by (intro timer_inv_elapse timer_inv_autoSave)
    from d have w1: "now ?w1 = now w + d1" "store ?w1 = store w"
      by (simp_all add: autoSave_then_elapse [OF inv])
    from d show ?thesis
      by (simp add: autoSave_then_elapse [OF inv1] w1) (simp add: autoSave_then_elapse [OF inv])
  qed
  from one t early [of d g] late [of d g] two show ?thesis by simp
qed

text \<open>
  C3 on a freshly loaded page with an empty store: autoSave of state1, 500 ms, autoSave
  of state2, 2100 ms.
\<close>

theorem autoSave_debounce_witness:
  "fst (elapse 500 (autoSave state1 (load_page empty_store 0))) = []
   \<and> fst (elapse 2100 (autoSave state2 (snd (elapse 500 (autoSave state1
          (load_page empty_store 0)))))) = [(2500, state2)]
   \<and> loadGameState (store (snd (elapse 2100 (autoSave state2 (snd (elapse 500 (autoSave state1
          (load_page empty_store 0))))))))
       = JObj [''turn'' \<mapsto> JNum 2, ''timestamp'' \<mapsto> JStr (toISOString 2500),
               ''version'' \<mapsto> JStr ''1.0'']"
proof -
  have r: "load_page empty_store 0 = run [] (load_page empty_store 0)"
    by (simp add: run_def)
  have n: "now (load_page empty_store 0) = 0" "store (load_page empty_store 0) = empty_store"
    by (simp_all add: load_page_def)
  have l: "loadGameState (snd (saveGameState 2500 state2 empty_store)) =
      JObj [''turn'' \<mapsto> JNum 2, ''timestamp'' \<mapsto> JStr (toISOString 2500),
            ''version'' \<mapsto> JStr ''1.0'']"
    by (simp add: saveGameState_def saveGameState_try_def setItem_def loadGameState_def
        getItem_def JSON_stringify_def empty_store_def unlimited_def state2_def)
  from autoSave_debounce [OF r, of state1 0 500 2100 state1 state2] l
  show ?thesis by (simp add: n)
qed

lemma quota_clearGameState: "quota (clearGameState s) = quota s"
  by (simp add: clearGameState_def removeItem_def)

lemma items_clearGameState_update:
  "(items (clearGameState s))(GAME_STATE \<mapsto> v) = (items s)(GAME_STATE \<mapsto> v)"
  by (simp add: clearGameState_def removeItem_def)

text \<open>
  Claim C10. A pending autoSave timer survives clearGameState. On every page reached
  from a fresh load: after autoSave of a state, less than 2000 ms, and clearGameState,
  hasSavedGame is false and the timer is still pending; when the 2000 ms are over the
  deferred saveGameState runs and (the store accepting the write) hasSavedGame is true
  again, the snapshot being the state given to autoSave. No operation of the managers
  other than autoSave changes the pending timers; a later autoSave replaces the pending
  timer by its own.
\<close>

theorem pending_autoSave_survives_clear:
  assumes "w = run es (load_page s t0)"
  shows "(d1 < 2000 \<and> 2000 \<le> d1 + d2
          \<and> quota (store w) ((items (store w))(GAME_STATE \<mapsto>
               Text (JObj ((own_props g)(''timestamp'' \<mapsto> JStr (toISOString (now w + 2000)),
                                          ''version'' \<mapsto> JStr ''1.0''))))) \<longrightarrow>
         \<not> hasSavedGame (store (exec ClearGameState (snd (elapse d1 (autoSave g w)))))
         \<and> timers (exec ClearGameState (snd (elapse d1 (autoSave g w)))) =
             [(next_id w, now w + 2000, g)]
         \<and> fst (elapse d2 (exec ClearGameState (snd (elapse d1 (autoSave g w))))) =
             [(now w + 2000, g)]
         \<and> hasSavedGame (store (snd (elapse d2 (exec ClearGameState
               (snd (elapse d1 (autoSave g w)))))))
         \<and> loadGameState (store (snd (elapse d2 (exec ClearGameState
               (snd (elapse d1 (autoSave g w))))))) =
             JObj ((own_props g)(''timestamp'' \<mapsto> JStr (toISOString (now w + 2000)),
                                 ''version'' \<mapsto> JStr ''1.0'')))
    \<and> ((\<forall>g. e \<noteq> AutoSave g) \<and> (\<forall>d. e \<noteq> Elapse d) \<longrightarrow> timers (exec e w) = timers w)
    \<and> timers (autoSave g' (autoSave g w)) = [(next_id (autoSave g w), now w + 2000, g')]"
proof (intro conjI impI)
  from assms have inv: "timer_inv w" by (simp add: timer_inv_run timer_inv_load)
  {
    assume a: "d1 < 2000 \<and> 2000 \<le> d1 + d2
          \<and> quota (store w) ((items (store w))(GAME_STATE \<mapsto>
               Text (JObj ((own_props g)(''timestamp'' \<mapsto> JStr (toISOString (now w + 2000)),
                                          ''version'' \<mapsto> JStr ''1.0'')))))"
    let ?w1 = "snd (elapse d1 (autoSave g w))"
    let ?w2 = "exec ClearGameState ?w1"
    let ?w3 = "snd (elapse d2 ?w2)"
    from a have w1: "?w1 = w\<lparr>now := now w + d1, timers := [(next_id w, now w + 2000, g)],
                 next_id := Suc (next_id w), timeout := Some (next_id w)\<rparr>"
      by (simp add: autoSave_then_elapse [OF inv])
    have t2: "timers ?w2 = [(next_id w, now w + 2000, g)]"
      and n2: "now ?w2 = now w + d1"
      and s2: "store ?w2 = clearGameState (store w)"
      unfolding w1 by simp_all
    have q: "quota (clearGameState (store w))
        ((items (clearGameState (store w)))(GAME_STATE \<mapsto>
           Text (JObj ((own_props g)(''timestamp'' \<mapsto> JStr (toISOString (now w + 2000)),
                                      ''version'' \<mapsto> JStr ''1.0'')))))"
      using a by (simp add: quota_clearGameState items_clearGameState_update)
    from a have fired: "fst (elapse d2 ?w2) = [(now w + 2000, g)]"
      and s3: "store ?w3 = snd (saveGameState (now w + 2000) g (clearGameState (store w)))"
      unfolding elapse_one_timer [OF t2] n2 s2 by simp_all
    show "\<not> hasSavedGame (store ?w2)"
      unfolding s2 by (simp add: hasSavedGame_def clearGameState_def removeItem_def getItem_def)
    show "timers ?w2 = [(next_id w, now w + 2000, g)]" by (rule t2)
    show "fst (elapse d2 ?w2) = [(now w + 2000, g)]" by (rule fired)
    from saveGameState_accepted [OF q]
    show "hasSavedGame (store ?w3)"
      and "loadGameState (store ?w3) =
             JObj ((own_props g)(''timestamp'' \<mapsto> JStr (toISOString (now w + 2000)),
                                 ''version'' \<mapsto> JStr ''1.0''))"
      unfolding s3 by simp_all
  }
  {
    assume "(\<forall>g. e \<noteq> AutoSave g) \<and> (\<forall>d. e \<noteq> Elapse d)"
    then show "timers (exec e w) = timers w" by (simp add: timers_exec_other)
  }
  have inv1: "timer_inv (autoSave g w)" using inv by (rule timer_inv_autoSave)
  show "timers (autoSave g' (autoSave g w)) = [(next_id (autoSave g w), now w + 2000, g')]"
    by (simp add: autoSave_result [OF inv1]) (simp add: autoSave_result [OF inv])
qed

text \<open>
  C10 on a page with a saved game: autoSave of state1, 500 ms, clearGameState, 1500 ms.
\<close>

theorem pending_autoSave_survives_clear_witness:
  "hasSavedGame (store (run [SaveGameState state2] (load_page empty_store 0)))
   \<and> \<not> hasSavedGame (store (exec ClearGameState (snd (elapse 500 (autoSave state1
          (run [SaveGameState state2] (load_page empty_store 0)))))))
   \<and> hasSavedGame (store (snd (elapse 1500 (exec ClearGameState (snd (elapse 500
          (autoSave state1 (run [SaveGameState state2] (load_page empty_store 0)))))))))
   \<and> loadGameState (store (snd (elapse 1500 (exec ClearGameState (snd (elapse 500
          (autoSave state1 (run [SaveGameState state2] (load_page empty_store 0)))))))))
       = JObj [''turn'' \<mapsto> JNum 1, ''timestamp'' \<mapsto> JStr (toISOString 2000),
               ''version'' \<mapsto> JStr ''1.0'']"
proof -
  let ?w = "run [SaveGameState state2] (load_page empty_store 0)"
  have n: "now ?w = 0" by (simp add: run_def load_page_def)
  have q: "quota (store ?w) c" for c
    by (simp add: run_def load_page_def saveGameState_def saveGameState_try_def setItem_def
        empty_store_def unlimited_def)
  have h: "hasSavedGame (store ?w)"
    by (simp add: run_def load_page_def saveGameState_def saveGameState_try_def setItem_def
        empty_store_def unlimited_def hasSavedGame_def getItem_def)
  from pending_autoSave_survives_clear [OF refl, of 500 1500 "[SaveGameState state2]"
      empty_store 0 state1 ClearGameState state1] q h
  show ?thesis by (simp add: n state1_def)
qed

subsection \<open>The stored user list\<close>

text \<open>
  The user lists that authentication is stated for are the ones saveUser builds: saving a
  user record into a stored user list leaves a user list.
\<close>

lemma saveUser_keeps_user_list:
  assumes m: "m ''username'' = Some (JStr n)"
    and g: "getAllUsers s = JArr users"
    and ul: "user_list users"
  shows "\<exists>us. getAllUsers (snd (saveUser (JObj m) s)) = JArr us \<and> user_list us"
proof (cases "fst (saveUser (JObj m) s)")
  case False
  then have "snd (saveUser (JObj m) s) = s"
    by (simp add: saveUser_cases split: sum.splits if_splits)
  with g ul show ?thesis by simp
next
  case True
  then obtain us where us: "saveUser_users (JObj m) s = Inr us"
    and s1: "snd (saveUser (JObj m) s) = s\<lparr>items := (items s)(USER_DATA \<mapsto> Text (JArr us))\<rparr>"
    by (auto simp: saveUser_cases split: sum.splits if_splits)
  let ?f = "\<lambda>u. own_props u ''username''"
  from ul have users: "list_all is_user users" and dist: "distinct (map ?f users)"
    by (simp_all add: user_list_def)
  have new: "is_user (JObj (a ++ m))" for a
    using m by (simp add: is_user_def map_add_def)
  have "user_list us"
  proof (cases "findIndex (has_username n) users")
    case (Inl e)
    with us show ?thesis by (simp add: saveUser_users_object [where m = m, OF m g])
  next
    case (Inr r)
    show ?thesis
    proof (cases r)
      case None
      with Inr us have eq: "us = users @ [JObj m]"
        by (simp add: saveUser_users_object [where m = m, OF m g])
      from Inr None have "\<forall>x\<in>set users. has_username n x = Inr False"
        by (simp add: findIndex_None_iff)
      then have "Some (JStr n) \<notin> set (map ?f users)"
        by (auto simp: has_username_False)
      with users dist m new [of Map.empty] show ?thesis
        by (simp add: eq user_list_def)
    next
      case (Some i)
      with Inr us have eq: "us = users[i := JObj (own_props (users ! i) ++ m)]"
        by (simp add: saveUser_users_object [where m = m, OF m g])
      from Inr Some have "findIndex (has_username n) users = Inr (Some i)" by simp
      from findIndex_SomeD [OF this] have i: "i < length users"
        and at: "?f (users ! i) = Some (JStr n)"
        by (simp_all add: has_username_True)
      have "map ?f us = (map ?f users)[i := Some (JStr n)]"
        using m by (simp add: eq map_update map_add_def)
      also have "\<dots> = map ?f users"
        using i at by (simp add: list_update_same_conv)
      finally have "distinct (map ?f us)" using dist by simp
      moreover have "list_all is_user us"
        using users new i unfolding eq list_all_iff by (auto dest: set_update_subset_insert [THEN subsetD])
      ultimately show ?thesis by (simp add: user_list_def)
    qed
  qed
  with s1 show ?thesis by (simp add: getAllUsers_written)
qed

end
